theory Spec2Isabelle
  imports Main "HOL-Library.Sublist" "HOL-Library.AList" "HOL-Library.Char_ord"
    "HOL-Library.List_Lexorder" "HOL-Library.Multiset"
begin

section \<open>Exceptions\<close>

text \<open>
  The tool layer signals every failure by raising a Python exception; the dispatcher
  turns \<^verbatim>\<open>str(e)\<close> into the payload of an error result. An exception is modelled by
  its class and its message. \<^verbatim>\<open>KeyError\<close> carries the missing key;
  \<^verbatim>\<open>OtherError\<close> stands for an exception raised inside a library the tools call
  (the pattern compiler).
\<close>

datatype exc =
    ValueError string
  | FileNotFoundError string
  | IsADirectoryError string
  | NotADirectoryError string
  | FileExistsError string
  | KeyError string
  | OtherError string

fun str_exc :: "exc \<Rightarrow> string" where
  "str_exc (ValueError m) = m"
| "str_exc (FileNotFoundError m) = m"
| "str_exc (IsADirectoryError m) = m"
| "str_exc (NotADirectoryError m) = m"
| "str_exc (FileExistsError m) = m"
| "str_exc (KeyError k) = [CHR 0x27] @ k @ [CHR 0x27]"
| "str_exc (OtherError m) = m"

text \<open>
  The error taxonomy of the specification, read off the exceptions the code raises:
  \<^verbatim>\<open>InvalidPath\<close> is either of the first two \<^verbatim>\<open>ValueError\<close>s of
  \<^verbatim>\<open>_resolve_relative\<close>, \<^verbatim>\<open>PathEscape\<close> the third.
\<close>

definition msg_path_required :: string where
  "msg_path_required = [CHR 0x60] @ ''path'' @ [CHR 0x60] @ '' is required''"





section \<open>Paths\<close>

text \<open>
  POSIX \<^verbatim>\<open>pathlib\<close>. An absolute path is the list of its segments below \<^verbatim>\<open>/\<close>
  (\<open>[]\<close> is the root directory). \<^verbatim>\<open>Path(s)\<close> splits \<open>s\<close> at \<^verbatim>\<open>/\<close> and drops
  empty and \<^verbatim>\<open>.\<close> segments, keeping \<^verbatim>\<open>..\<close>; it is absolute when \<open>s\<close> starts with
  \<^verbatim>\<open>/\<close>. \<^verbatim>\<open>resolve()\<close> on a file system without symbolic links removes each
  \<^verbatim>\<open>..\<close> together with the segment before it, and \<^verbatim>\<open>..\<close> at the root stays at the
  root.
\<close>

type_synonym path = "string list"

fun split_on :: "char \<Rightarrow> string \<Rightarrow> string list" where
  "split_on c [] = [[]]"
| "split_on c (x # xs) =
     (if x = c then [] # split_on c xs
      else (x # hd (split_on c xs)) # tl (split_on c xs))"

definition parse_parts :: "string \<Rightarrow> string list" where
  "parse_parts s = filter (\<lambda>x. x \<noteq> [] \<and> x \<noteq> ''.'') (split_on CHR ''/'' s)"

definition is_absolute :: "string \<Rightarrow> bool" where
  "is_absolute s = (case s of [] \<Rightarrow> False | c # _ \<Rightarrow> c = CHR ''/'')"

definition resolve_step :: "path \<Rightarrow> string \<Rightarrow> path" where
  "resolve_step acc s = (if s = ''..'' then butlast acc else acc @ [s])"

definition realpath :: "string list \<Rightarrow> path" where
  "realpath segs = foldl resolve_step [] segs"

text \<open>\<^verbatim>\<open>Path.parents\<close>: the proper ancestors, nearest first.\<close>

function parents :: "path \<Rightarrow> path list" where
  "parents p = (if p = [] then [] else butlast p # parents (butlast p))"
  by pat_completeness auto
termination
  by (relation "measure length") auto

declare parents.simps [simp del]

text \<open>\<^verbatim>\<open>str(path)\<close> of an absolute path.\<close>

fun join_sep :: "string list \<Rightarrow> string" where
  "join_sep [] = []"
| "join_sep [s] = s"
| "join_sep (s # t # ss) = s @ ''/'' @ join_sep (t # ss)"

definition str_path :: "path \<Rightarrow> string" where
  "str_path p = ''/'' @ join_sep p"

section \<open>The path sandbox\<close>

text \<open>
  \<^verbatim>\<open>_resolve_relative(path_str)\<close>. The parameter \<open>cwd\<close> is the value of
  \<^verbatim>\<open>Path(".").resolve()\<close>, the project root: the working directory of the process,
  absolute and resolved.
\<close>

definition resolve_relative :: "path \<Rightarrow> string \<Rightarrow> exc + path" where
  "resolve_relative cwd path_str =
     (if path_str = [] then Inl (ValueError msg_path_required)
      else
        let rel_path = parse_parts path_str in
        if is_absolute path_str then Inl (ValueError ''Absolute paths are not allowed'')
        else
          let base_dir = cwd;
              abs_path = realpath (base_dir @ rel_path) in
          if base_dir \<notin> set (parents abs_path) \<and> abs_path \<noteq> base_dir
          then Inl (ValueError ''Path escapes project root'')
          else Inr abs_path)"

text \<open>The candidate of the specification: \<^verbatim>\<open>normalize(project_root / relative_path)\<close>.\<close>

definition candidate :: "path \<Rightarrow> string \<Rightarrow> path" where
  "candidate root p = realpath (root @ parse_parts p)"

section \<open>The file system\<close>

text \<open>
  A file system without symbolic links is a tree: a regular file holds its text, a
  directory the list of its entries in the order \<^verbatim>\<open>os.scandir\<close> reports them. The
  text of a file is what decoding its bytes gives (UTF-8, Latin-1 when that fails);
  strings are lists of 8-bit characters. Name lookup takes the first entry of a name.
\<close>

datatype fsnode = File string | Dir "(string \<times> fsnode) list"

datatype errno = ENOENT | ENOTDIR | EISDIR | EEXIST

fun lookup :: "fsnode \<Rightarrow> path \<Rightarrow> fsnode option" where
  "lookup n [] = Some n"
| "lookup (File c) (s # ss) = None"
| "lookup (Dir es) (s # ss) = (case map_of es s of None \<Rightarrow> None | Some n \<Rightarrow> lookup n ss)"

definition path_exists :: "fsnode \<Rightarrow> path \<Rightarrow> bool" where
  "path_exists fs p \<longleftrightarrow> lookup fs p \<noteq> None"

definition is_dir :: "fsnode \<Rightarrow> path \<Rightarrow> bool" where
  "is_dir fs p = (case lookup fs p of Some (Dir es) \<Rightarrow> True | _ \<Rightarrow> False)"

definition is_file :: "fsnode \<Rightarrow> path \<Rightarrow> bool" where
  "is_file fs p = (case lookup fs p of Some (File c) \<Rightarrow> True | _ \<Rightarrow> False)"

text \<open>
  \<^verbatim>\<open>open(path, "w")\<close> followed by a write of \<open>x\<close>: creates or truncates a regular
  file in an existing directory.
\<close>

fun fs_write :: "fsnode \<Rightarrow> path \<Rightarrow> string \<Rightarrow> errno + fsnode" where
  "fs_write (File c) [] x = Inr (File x)"
| "fs_write (Dir es) [] x = Inl EISDIR"
| "fs_write (File c) (s # ss) x = Inl ENOTDIR"
| "fs_write (Dir es) (s # ss) x =
     (case map_of es s of
        None \<Rightarrow> (if ss = [] then Inr (Dir (AList.update s (File x) es)) else Inl ENOENT)
      | Some n \<Rightarrow>
          (case fs_write n ss x of
             Inl e \<Rightarrow> Inl e
           | Inr n' \<Rightarrow> Inr (Dir (AList.update s n' es))))"

text \<open>\<^verbatim>\<open>Path.mkdir(parents=True, exist_ok=True)\<close>.\<close>

fun fs_mkdir_p :: "fsnode \<Rightarrow> path \<Rightarrow> errno + fsnode" where
  "fs_mkdir_p (Dir es) [] = Inr (Dir es)"
| "fs_mkdir_p (File c) [] = Inl EEXIST"
| "fs_mkdir_p (File c) (s # ss) = Inl ENOTDIR"
| "fs_mkdir_p (Dir es) (s # ss) =
     (case fs_mkdir_p (case map_of es s of None \<Rightarrow> Dir [] | Some n \<Rightarrow> n) ss of
        Inl e \<Rightarrow> Inl e
      | Inr n' \<Rightarrow> Inr (Dir (AList.update s n' es)))"

text \<open>The \<^verbatim>\<open>OSError\<close> subclass and message Python raises for an error number.\<close>

definition quoted :: "string \<Rightarrow> string" where
  "quoted s = [CHR 0x27] @ s @ [CHR 0x27]"

fun os_error :: "errno \<Rightarrow> path \<Rightarrow> exc" where
  "os_error ENOENT p =
     FileNotFoundError (''[Errno 2] No such file or directory: '' @ quoted (str_path p))"
| "os_error ENOTDIR p =
     NotADirectoryError (''[Errno 20] Not a directory: '' @ quoted (str_path p))"
| "os_error EISDIR p =
     IsADirectoryError (''[Errno 21] Is a directory: '' @ quoted (str_path p))"
| "os_error EEXIST p =
     FileExistsError (''[Errno 17] File exists: '' @ quoted (str_path p))"

definition write_text :: "fsnode \<Rightarrow> path \<Rightarrow> string \<Rightarrow> exc + fsnode" where
  "write_text fs p x = (case fs_write fs p x of Inl e \<Rightarrow> Inl (os_error e p) | Inr fs' \<Rightarrow> Inr fs')"

definition mkdir_parents :: "fsnode \<Rightarrow> path \<Rightarrow> exc + fsnode" where
  "mkdir_parents fs p = (case fs_mkdir_p fs p of Inl e \<Rightarrow> Inl (os_error e p) | Inr fs' \<Rightarrow> Inr fs')"

text \<open>
  Reading in text mode translates line endings (universal newlines): \<^verbatim>\<open>\r\n\<close> and a
  lone \<^verbatim>\<open>\r\<close> are returned as \<^verbatim>\<open>\n\<close>. Writing on POSIX translates nothing.
\<close>

fun universal_newlines :: "string \<Rightarrow> string" where
  "universal_newlines [] = []"
| "universal_newlines [c] = (if c = CHR 0x0D then [CHR 0x0A] else [c])"
| "universal_newlines (c # d # cs) =
     (if c = CHR 0x0D then
        (if d = CHR 0x0A then CHR 0x0A # universal_newlines cs
         else CHR 0x0A # universal_newlines (d # cs))
      else c # universal_newlines (d # cs))"

definition read_text :: "fsnode \<Rightarrow> path \<Rightarrow> exc + string" where
  "read_text fs p =
     (case lookup fs p of
        None \<Rightarrow> Inl (os_error ENOENT p)
      | Some (Dir es) \<Rightarrow> Inl (os_error EISDIR p)
      | Some (File c) \<Rightarrow> Inr (universal_newlines c))"

section \<open>String replacement\<close>

text \<open>
  \<^verbatim>\<open>str.replace(old, new)\<close>: scanning from the left, every occurrence of \<open>old\<close> that
  does not overlap an earlier one is replaced; the empty string occurs before every
  character and at the end.
\<close>

function py_replace :: "string \<Rightarrow> string \<Rightarrow> string \<Rightarrow> string" where
  "py_replace old new s =
     (if prefix old s then
        new @ (if old = [] then (case s of [] \<Rightarrow> [] | c # cs \<Rightarrow> c # py_replace old new cs)
               else py_replace old new (drop (length old) s))
      else (case s of [] \<Rightarrow> [] | c # cs \<Rightarrow> c # py_replace old new cs))"
  by pat_completeness auto
termination
proof (relation "measure (\<lambda>(old, new, s). length s)")
  show "wf (measure (\<lambda>(old, new, s). length s))" by simp
next
  fix old new s :: string and c cs
  assume "s = c # cs"
  then show "((old, new, cs), (old, new, s)) \<in> measure (\<lambda>(old, new, s). length s)"
    by simp
next
  fix old new s :: string
  assume "prefix old s" "old \<noteq> []"
  then have "s \<noteq> []" by auto
  with \<open>old \<noteq> []\<close>
  show "((old, new, drop (length old) s), (old, new, s)) \<in> measure (\<lambda>(old, new, s). length s)"
    by simp
next
  fix old new s :: string and c cs
  assume "s = c # cs"
  then show "((old, new, cs), (old, new, s)) \<in> measure (\<lambda>(old, new, s). length s)"
    by simp
qed

declare py_replace.simps [simp del]

section \<open>The file tools\<close>

text \<open>
  A tool takes the input mapping and the file system and returns its output or the
  exception it raises, together with the file system it leaves.
\<close>

type_synonym payload = "string \<rightharpoonup> string"

definition read_file :: "path \<Rightarrow> payload \<Rightarrow> fsnode \<Rightarrow> exc + string" where
  "read_file cwd inp fs =
     (case inp ''path'' of
        None \<Rightarrow> Inl (KeyError ''path'')
      | Some path_str \<Rightarrow>
          (case resolve_relative cwd path_str of
             Inl e \<Rightarrow> Inl e
           | Inr path \<Rightarrow>
               if \<not> path_exists fs path
               then Inl (FileNotFoundError (''No such file: '' @ str_path path))
               else if is_dir fs path
               then Inl (IsADirectoryError (''Expected a file, found a directory: '' @ path_str))
               else read_text fs path))"

definition edit_file :: "path \<Rightarrow> payload \<Rightarrow> fsnode \<Rightarrow> (exc + string) \<times> fsnode" where
  "edit_file cwd inp fs =
     (case inp ''path'' of
        None \<Rightarrow> (Inl (KeyError ''path''), fs)
      | Some path_str \<Rightarrow>
     (case resolve_relative cwd path_str of
        Inl e \<Rightarrow> (Inl e, fs)
      | Inr path \<Rightarrow>
     (case inp ''old_str'' of
        None \<Rightarrow> (Inl (KeyError ''old_str''), fs)
      | Some old_str \<Rightarrow>
     (case inp ''new_str'' of
        None \<Rightarrow> (Inl (KeyError ''new_str''), fs)
      | Some new_str \<Rightarrow>
          if \<not> path_exists fs path \<and> old_str = [] then
            (case (if \<not> path_exists fs (butlast path) then mkdir_parents fs (butlast path)
                   else Inr fs) of
               Inl e \<Rightarrow> (Inl e, fs)
             | Inr fs1 \<Rightarrow>
                 (case write_text fs1 path new_str of
                    Inl e \<Rightarrow> (Inl e, fs1)
                  | Inr fs2 \<Rightarrow> (Inr (''Created new file: '' @ path_str), fs2)))
          else if \<not> path_exists fs path
          then (Inl (FileNotFoundError (''No such file: '' @ str_path path)), fs)
          else if is_dir fs path
          then (Inl (IsADirectoryError (''Expected a file, found a directory: '' @ path_str)), fs)
          else
            (case read_text fs path of
               Inl e \<Rightarrow> (Inl e, fs)
             | Inr content \<Rightarrow>
                 let new_content = py_replace old_str new_str content in
                 (case write_text fs path new_content of
                    Inl e \<Rightarrow> (Inl e, fs)
                  | Inr fs' \<Rightarrow> (Inr (''Successfully edited file: '' @ path_str), fs')))))))"

section \<open>Ignore rules\<close>

text \<open>\<^verbatim>\<open>str.splitlines()\<close> on 8-bit characters.\<close>

definition line_boundary :: "char \<Rightarrow> bool" where
  "line_boundary c \<longleftrightarrow>
     c \<in> {CHR 0x0A, CHR 0x0B, CHR 0x0C, CHR 0x1C, CHR 0x1D, CHR 0x1E, CHR 0x85}"

fun split_lines :: "string \<Rightarrow> string \<Rightarrow> string list" where
  "split_lines cur [] = (if cur = [] then [] else [cur])"
| "split_lines cur (c # cs) =
     (if c = CHR 0x0D then
        (case cs of
           [] \<Rightarrow> [cur]
         | d # ds \<Rightarrow> if d = CHR 0x0A then cur # split_lines [] ds else cur # split_lines [] cs)
      else if line_boundary c then cur # split_lines [] cs
      else split_lines (cur @ [c]) cs)"

definition splitlines :: "string \<Rightarrow> string list" where
  "splitlines s = split_lines [] s"

text \<open>
  \<^verbatim>\<open>_get_gitignore(root)\<close>. The pattern compiler
  \<^verbatim>\<open>pathspec.PathSpec.from_lines("gitwildmatch", patterns)\<close> is the parameter
  \<open>from_lines\<close>: it returns the predicate \<^verbatim>\<open>match_file\<close> of the compiled rule set, or the
  message of the error it raises on a malformed pattern. \<open>excludes\<close> is the resolved path
  \<^verbatim>\<open>git config --get core.excludesFile\<close> names, \<open>None\<close> when that command fails.
\<close>

type_synonym matcher = "string \<Rightarrow> bool"

type_synonym pattern_compiler = "string list \<Rightarrow> string + matcher"

definition file_lines :: "fsnode \<Rightarrow> path \<Rightarrow> string list" where
  "file_lines fs p =
     (if is_file fs p then (case read_text fs p of Inl e \<Rightarrow> [] | Inr t \<Rightarrow> splitlines t) else [])"

definition get_gitignore ::
  "pattern_compiler \<Rightarrow> path option \<Rightarrow> fsnode \<Rightarrow> path \<Rightarrow> exc + matcher" where
  "get_gitignore from_lines excludes fs root =
     (let local_ignore_files = [[''.gitignore''], [''.git'', ''info'', ''exclude'']];
          patterns = concat (map (\<lambda>filename. file_lines fs (root @ filename)) local_ignore_files)
            @ (case excludes of None \<Rightarrow> [] | Some global_ignore_path \<Rightarrow> file_lines fs global_ignore_path)
      in case from_lines patterns of
           Inl m \<Rightarrow> Inl (OtherError m)
         | Inr spec \<Rightarrow> Inr spec)"

section \<open>Listing files\<close>

text \<open>\<^verbatim>\<open>Path(s).resolve()\<close>, relative to the working directory unless \<open>s\<close> is absolute.\<close>

definition path_resolve :: "path \<Rightarrow> string \<Rightarrow> path" where
  "path_resolve cwd s = realpath ((if is_absolute s then [] else cwd) @ parse_parts s)"

fun is_Dir :: "fsnode \<Rightarrow> bool" where
  "is_Dir (Dir es) = True"
| "is_Dir (File c) = False"

definition dir_names :: "(string \<times> fsnode) list \<Rightarrow> string list" where
  "dir_names es = map fst (filter (\<lambda>e. is_Dir (snd e)) es)"

definition file_names :: "(string \<times> fsnode) list \<Rightarrow> string list" where
  "file_names es = map fst (filter (\<lambda>e. \<not> is_Dir (snd e)) es)"

text \<open>
  The first loop of the body: every name in a copy of \<^verbatim>\<open>dirs\<close> whose path, with a
  trailing \<^verbatim>\<open>/\<close>, is matched is removed from \<^verbatim>\<open>dirs\<close> (\<^verbatim>\<open>list.remove\<close> takes out the
  first occurrence).
\<close>

fun prune_dirs :: "matcher \<Rightarrow> string list \<Rightarrow> string list \<Rightarrow> string list \<Rightarrow> string list" where
  "prune_dirs ignore rel [] dirs = dirs"
| "prune_dirs ignore rel (d # ds) dirs =
     prune_dirs ignore rel ds
       (if ignore (join_sep (rel @ [d]) @ ''/'') then remove1 d dirs else dirs)"

lemma map_of_size:
  "map_of es d = Some (sub :: fsnode) \<Longrightarrow> size sub < Suc (size_list (size_prod (\<lambda>_. 0) size) es)"
  by (induction es) (auto split: if_splits)

text \<open>
  \<^verbatim>\<open>os.walk(base_dir, topdown=True)\<close> together with the pruning the loop body does on
  \<^verbatim>\<open>dirs\<close> before the walk descends: the list of the visited directories, each with its
  path relative to \<^verbatim>\<open>base_dir\<close>, the directory names left after pruning and the file
  names, in pre-order.
\<close>

function os_walk ::
  "matcher \<Rightarrow> string list \<Rightarrow> fsnode \<Rightarrow> (string list \<times> string list \<times> string list) list" where
  "os_walk ignore rel (File c) = []"
| "os_walk ignore rel (Dir es) =
     (let dirs = prune_dirs ignore rel (dir_names es) (dir_names es);
          files = file_names es
      in (rel, dirs, files) #
         concat (map (\<lambda>d. case map_of es d of
                             None \<Rightarrow> []
                           | Some sub \<Rightarrow> os_walk ignore (rel @ [d]) sub) dirs))"
  by pat_completeness auto
termination
  by (relation "measure (\<lambda>(ignore, rel, node). size node)") (auto dest: map_of_size)

text \<open>The second loop of the body, over \<^verbatim>\<open>files + dirs\<close>.\<close>

fun entries :: "matcher \<Rightarrow> fsnode \<Rightarrow> string list \<Rightarrow> string list \<Rightarrow> string list" where
  "entries ignore base rel [] = []"
| "entries ignore base rel (name # names) =
     (let rel_path_str = join_sep (rel @ [name]) in
      if ignore rel_path_str then entries ignore base rel names
      else if is_dir base (rel @ [name]) then (rel_path_str @ ''/'') # entries ignore base rel names
      else rel_path_str # entries ignore base rel names)"

definition walk_results :: "matcher \<Rightarrow> fsnode \<Rightarrow> string list" where
  "walk_results ignore base =
     concat (map (\<lambda>(rel, dirs, files). entries ignore base rel (files @ dirs))
               (os_walk ignore [] base))"

text \<open>\<^verbatim>\<open>json.dumps\<close> of a list of strings (\<^verbatim>\<open>ensure_ascii\<close> is on).\<close>

definition hex_digit :: "nat \<Rightarrow> char" where
  "hex_digit n = ''0123456789abcdef'' ! n"

definition json_escape :: "char \<Rightarrow> string" where
  "json_escape c =
     (if c = CHR 0x22 then [CHR 0x5C, CHR 0x22]
      else if c = CHR 0x5C then [CHR 0x5C, CHR 0x5C]
      else if c = CHR 0x0A then [CHR 0x5C, CHR ''n'']
      else if c = CHR 0x0D then [CHR 0x5C, CHR ''r'']
      else if c = CHR 0x09 then [CHR 0x5C, CHR ''t'']
      else if c = CHR 0x08 then [CHR 0x5C, CHR ''b'']
      else if c = CHR 0x0C then [CHR 0x5C, CHR ''f'']
      else if (0x20 :: nat) \<le> of_char c \<and> of_char c \<le> (0x7E :: nat) then [c]
      else [CHR 0x5C, CHR ''u'', CHR ''0'', CHR ''0'',
            hex_digit (of_char c div 16), hex_digit (of_char c mod 16)])"

definition json_string :: "string \<Rightarrow> string" where
  "json_string s = [CHR 0x22] @ concat (map json_escape s) @ [CHR 0x22]"

fun comma_join :: "string list \<Rightarrow> string" where
  "comma_join [] = []"
| "comma_join [s] = s"
| "comma_join (s # t # ss) = s @ '', '' @ comma_join (t # ss)"

definition json_dumps :: "string list \<Rightarrow> string" where
  "json_dumps xs = ''['' @ comma_join (map json_string xs) @ '']''"

definition list_files ::
  "pattern_compiler \<Rightarrow> path option \<Rightarrow> path \<Rightarrow> payload \<Rightarrow> fsnode \<Rightarrow> exc + string" where
  "list_files from_lines excludes cwd inp fs =
     (let base_dir_str = (case inp ''path'' of None \<Rightarrow> ''.'' | Some p \<Rightarrow> p);
          base_dir = path_resolve cwd base_dir_str
      in if \<not> path_exists fs base_dir
         then Inl (FileNotFoundError (quoted (str_path base_dir) @ '' does not exist''))
         else if \<not> is_dir fs base_dir then Inr (json_dumps [])
         else
           (case get_gitignore from_lines excludes fs base_dir of
              Inl e \<Rightarrow> Inl e
            | Inr ignore \<Rightarrow>
                (case lookup fs base_dir of
                   None \<Rightarrow> Inr (json_dumps [])
                 | Some base \<Rightarrow> Inr (json_dumps (sort (walk_results ignore base))))))"

text \<open>The directory \<^verbatim>\<open>list_files\<close> lists: the resolved \<^verbatim>\<open>path\<close> input, \<^verbatim>\<open>.\<close> by default.\<close>

definition base_dir_of :: "path \<Rightarrow> payload \<Rightarrow> path" where
  "base_dir_of cwd inp = path_resolve cwd (case inp ''path'' of None \<Rightarrow> ''.'' | Some p \<Rightarrow> p)"


text \<open>
  Well-formed trees: the names in a directory are pairwise different, at every level.
\<close>

fun wf_fs :: "fsnode \<Rightarrow> bool" where
  "wf_fs (File c) = True"
| "wf_fs (Dir es) = (distinct (map fst es) \<and> (\<forall>e \<in> set es. wf_fs (snd e)))"

section \<open>Tool dispatch\<close>

text \<open>
  A tool result is the dictionary \<^verbatim>\<open>run_tool\<close> builds; its values are strings and
  booleans. A \<^verbatim>\<open>tool_use\<close> block carries the identifier the model service gave it, the
  tool name and the input mapping. A tool specification is reduced to its name and its
  function; the function takes the input and the file system and returns its output or
  the exception it raises, with the file system it leaves.
\<close>

datatype jval = JStr string | JBool bool

type_synonym tool_result = "string \<rightharpoonup> jval"

record tool_use =
  tu_id :: string
  tu_name :: string
  tu_input :: payload

type_synonym handler = "payload \<Rightarrow> fsnode \<Rightarrow> (exc + string) \<times> fsnode"

type_synonym tool_spec = "string \<times> handler"

text \<open>\<^verbatim>\<open>{t["name"]: t for t in ALL_TOOLS}\<close>: a later entry of a name replaces an earlier one.\<close>

definition tool_map_of :: "tool_spec list \<Rightarrow> (string \<rightharpoonup> handler)" where
  "tool_map_of tools = foldl (\<lambda>m t. m(fst t \<mapsto> snd t)) Map.empty tools"

text \<open>What the dispatcher prints: the call it is about to make, and the error text.\<close>

datatype console = PrintTool string payload | PrintToolError string
  | PrintClaude string | PrintDebug

text \<open>\<^verbatim>\<open>run_tool\<close> of \<^verbatim>\<open>src/coding_agent/core.py\<close>.\<close>

definition run_tool ::
  "(string \<rightharpoonup> handler) \<Rightarrow> tool_use \<Rightarrow> fsnode \<Rightarrow> tool_result \<times> fsnode \<times> console list" where
  "run_tool tool_map block fs =
     (let name = tu_name block;
          payload = tu_input block
      in case tool_map name of
           None \<Rightarrow>
             ([''type'' \<mapsto> JStr ''tool_result'',
               ''tool_use_id'' \<mapsto> JStr (tu_id block),
               ''is_error'' \<mapsto> JBool True,
               ''content'' \<mapsto> JStr (''Unknown tool '' @ quoted name)],
              fs, [PrintToolError (''Unknown tool '' @ name)])
         | Some fn \<Rightarrow>
             (case fn payload fs of
                (Inr output, fs') \<Rightarrow>
                  ([''type'' \<mapsto> JStr ''tool_result'',
                    ''tool_use_id'' \<mapsto> JStr (tu_id block),
                    ''content'' \<mapsto> JStr output],
                   fs', [PrintTool name payload])
              | (Inl e, fs') \<Rightarrow>
                  ([''type'' \<mapsto> JStr ''tool_result'',
                    ''tool_use_id'' \<mapsto> JStr (tu_id block),
                    ''is_error'' \<mapsto> JBool True,
                    ''content'' \<mapsto> JStr (str_exc e)],
                   fs', [PrintTool name payload, PrintToolError (str_exc e)])))"

text \<open>\<^verbatim>\<open>run_tool\<close> of \<^verbatim>\<open>agent/core.py\<close>: the error text is stored under \<^verbatim>\<open>error\<close>.\<close>

definition agent_run_tool ::
  "(string \<rightharpoonup> handler) \<Rightarrow> tool_use \<Rightarrow> fsnode \<Rightarrow> tool_result \<times> fsnode \<times> console list" where
  "agent_run_tool tool_map block fs =
     (let name = tu_name block;
          payload = tu_input block
      in case tool_map name of
           None \<Rightarrow>
             ([''type'' \<mapsto> JStr ''tool_result'',
               ''tool_use_id'' \<mapsto> JStr (tu_id block),
               ''is_error'' \<mapsto> JBool True,
               ''error'' \<mapsto> JStr (''Unknown tool '' @ quoted name)],
              fs, [PrintToolError (''Unknown tool '' @ name)])
         | Some fn \<Rightarrow>
             (case fn payload fs of
                (Inr output, fs') \<Rightarrow>
                  ([''type'' \<mapsto> JStr ''tool_result'',
                    ''tool_use_id'' \<mapsto> JStr (tu_id block),
                    ''content'' \<mapsto> JStr output],
                   fs', [PrintTool name payload])
              | (Inl e, fs') \<Rightarrow>
                  ([''type'' \<mapsto> JStr ''tool_result'',
                    ''tool_use_id'' \<mapsto> JStr (tu_id block),
                    ''is_error'' \<mapsto> JBool True,
                    ''error'' \<mapsto> JStr (str_exc e)],
                   fs', [PrintTool name payload, PrintToolError (str_exc e)])))"

text \<open>
  The registries. Both versions register the same \<^verbatim>\<open>list_files\<close>;
  \<^verbatim>\<open>agent/tools.py\<close> registers nothing else.
\<close>

definition list_files_tool :: "pattern_compiler \<Rightarrow> path option \<Rightarrow> path \<Rightarrow> handler" where
  "list_files_tool from_lines excludes cwd inp fs = (list_files from_lines excludes cwd inp fs, fs)"

definition read_file_tool :: "path \<Rightarrow> handler" where
  "read_file_tool cwd inp fs = (read_file cwd inp fs, fs)"

definition ALL_TOOLS :: "pattern_compiler \<Rightarrow> path option \<Rightarrow> path \<Rightarrow> tool_spec list" where
  "ALL_TOOLS from_lines excludes cwd =
     [(''list_files'', list_files_tool from_lines excludes cwd),
      (''read_file'', read_file_tool cwd),
      (''edit_file'', edit_file cwd)]"

definition TOOL_MAP :: "pattern_compiler \<Rightarrow> path option \<Rightarrow> path \<Rightarrow> (string \<rightharpoonup> handler)" where
  "TOOL_MAP from_lines excludes cwd = tool_map_of (ALL_TOOLS from_lines excludes cwd)"

definition agent_ALL_TOOLS :: "pattern_compiler \<Rightarrow> path option \<Rightarrow> path \<Rightarrow> tool_spec list" where
  "agent_ALL_TOOLS from_lines excludes cwd =
     [(''list_files'', list_files_tool from_lines excludes cwd)]"

definition agent_TOOL_MAP :: "pattern_compiler \<Rightarrow> path option \<Rightarrow> path \<Rightarrow> (string \<rightharpoonup> handler)" where
  "agent_TOOL_MAP from_lines excludes cwd = tool_map_of (agent_ALL_TOOLS from_lines excludes cwd)"

section \<open>The orchestrator loop\<close>

text \<open>
  A model message is a role and a list of content blocks; the loop looks at text and
  \<^verbatim>\<open>tool_use\<close> blocks and passes over any other type. An entry of \<^verbatim>\<open>CONV\<close> is a role
  with the text the user typed, the blocks of a model message, or a list of tool results.
\<close>

datatype block = TextBlock string | ToolUseBlock tool_use | OtherBlock string

record model_message =
  msg_role :: string
  msg_content :: "block list"

datatype conv_content = UserText string | ModelBlocks "block list" | ToolResults "tool_result list"

type_synonym conv_message = "string \<times> conv_content"

text \<open>
  The state the loop works on: \<^verbatim>\<open>CONV\<close>, the file system and the console. The model
  service is the list of the responses it gives to the calls still to come, in call
  order. Three logs record what happened: the \<^verbatim>\<open>messages\<close> argument of every call to the
  service, the blocks \<^verbatim>\<open>run_tool\<close> was called on, and the messages taken from the queue.
\<close>

record agent_state =
  st_conv :: "conv_message list"
  st_files :: fsnode
  st_printed :: "console list"
  st_responses :: "model_message list"
  st_requests :: "conv_message list list"
  st_dispatched :: "tool_use list"
  st_handled :: "model_message list"

text \<open>
  \<^verbatim>\<open>client.messages.create(messages=CONV, ...)\<close>: the next response, \<open>None\<close> when the
  list holds no response for this call.
\<close>

definition create :: "agent_state \<Rightarrow> (model_message \<times> agent_state) option" where
  "create st =
     (case st_responses st of
        [] \<Rightarrow> None
      | r # rs \<Rightarrow> Some (r, st\<lparr>st_responses := rs, st_requests := st_requests st @ [st_conv st]\<rparr>))"

text \<open>The \<^verbatim>\<open>for block in current.content\<close> loop of \<^verbatim>\<open>handle\<close>.\<close>

fun process_blocks ::
  "(string \<rightharpoonup> handler) \<Rightarrow> block list \<Rightarrow> model_message list \<Rightarrow> agent_state \<Rightarrow>
     (model_message list \<times> agent_state) option" where
  "process_blocks tool_map [] pending st = Some (pending, st)"
| "process_blocks tool_map (TextBlock t # bs) pending st =
     process_blocks tool_map bs pending (st\<lparr>st_printed := st_printed st @ [PrintClaude t]\<rparr>)"
| "process_blocks tool_map (ToolUseBlock b # bs) pending st =
     (case run_tool tool_map b (st_files st) of
        (result_block, fs', out) \<Rightarrow>
          (case create (st\<lparr>st_files := fs',
                           st_printed := st_printed st @ out,
                           st_dispatched := st_dispatched st @ [b],
                           st_conv := st_conv st @ [(''user'', ToolResults [result_block])]\<rparr>) of
             None \<Rightarrow> None
           | Some (m, st') \<Rightarrow> process_blocks tool_map bs (pending @ [m]) st'))"
| "process_blocks tool_map (OtherBlock k # bs) pending st = process_blocks tool_map bs pending st"

fun block_tool_uses :: "block list \<Rightarrow> tool_use list" where
  "block_tool_uses [] = []"
| "block_tool_uses (ToolUseBlock b # bs) = b # block_tool_uses bs"
| "block_tool_uses (TextBlock t # bs) = block_tool_uses bs"
| "block_tool_uses (OtherBlock k # bs) = block_tool_uses bs"

definition tool_uses :: "model_message list \<Rightarrow> tool_use list" where
  "tool_uses ms = concat (map (\<lambda>m. block_tool_uses (msg_content m)) ms)"

text \<open>A request answers a block when its last message is the tool result of the block.\<close>

definition answers_tool_use :: "conv_message list \<Rightarrow> tool_use \<Rightarrow> bool" where
  "answers_tool_use request b \<longleftrightarrow>
     (case rev request of
        (role, ToolResults [r]) # earlier \<Rightarrow>
          role = ''user'' \<and> r ''tool_use_id'' = Some (JStr (tu_id b))
      | _ \<Rightarrow> False)"

lemma process_blocks_effect:
  "process_blocks tool_map bs pending st = Some (pending', st') \<Longrightarrow>
     length (block_tool_uses bs) \<le> length (st_responses st)
     \<and> pending' = pending @ take (length (block_tool_uses bs)) (st_responses st)
     \<and> st_responses st' = drop (length (block_tool_uses bs)) (st_responses st)
     \<and> st_dispatched st' = st_dispatched st @ block_tool_uses bs
     \<and> st_handled st' = st_handled st
     \<and> (\<exists>new. st_requests st' = st_requests st @ new
            \<and> list_all2 answers_tool_use new (block_tool_uses bs))"
proof (induction tool_map bs pending st arbitrary: pending' st' rule: process_blocks.induct)
  case (1 tool_map pending st)
  then show ?case by simp
next
  case (2 tool_map t bs pending st)
  from "2.IH" [OF "2.prems" [simplified]] show ?case by simp
next
  case (3 tool_map b bs pending st)
  obtain result_block fs' out where run: "run_tool tool_map b (st_files st) = (result_block, fs', out)"
    by (cases "run_tool tool_map b (st_files st)") auto
  let ?st1 = "st\<lparr>st_files := fs', st_printed := st_printed st @ out,
      st_dispatched := st_dispatched st @ [b],
      st_conv := st_conv st @ [(''user'', ToolResults [result_block])]\<rparr>"
  from "3.prems" run obtain m st2 where cr: "create ?st1 = Some (m, st2)"
    and rest: "process_blocks tool_map bs (pending @ [m]) st2 = Some (pending', st')"
    by (auto split: option.splits)
  from cr obtain rs where rs: "st_responses st = m # rs"
    and st2: "st2 = ?st1\<lparr>st_responses := rs, st_requests := st_requests st @ [st_conv ?st1]\<rparr>"
    by (auto simp: create_def split: list.splits)
  have id: "result_block ''tool_use_id'' = Some (JStr (tu_id b))"
    using run by (auto simp: run_tool_def Let_def split: option.splits sum.splits prod.splits)
  have ans: "answers_tool_use (st_conv ?st1) b"
    using id by (simp add: answers_tool_use_def)
  from "3.IH" [OF run [symmetric] refl cr refl rest]
  obtain new where ih: "length (block_tool_uses bs) \<le> length (st_responses st2)"
    "pending' = (pending @ [m]) @ take (length (block_tool_uses bs)) (st_responses st2)"
    "st_responses st' = drop (length (block_tool_uses bs)) (st_responses st2)"
    "st_dispatched st' = st_dispatched st2 @ block_tool_uses bs"
    "st_handled st' = st_handled st2"
    "st_requests st' = st_requests st2 @ new"
    "list_all2 answers_tool_use new (block_tool_uses bs)"
    by blast
  have "st_requests st' = st_requests st @ (st_conv ?st1 # new)"
    using ih(6) st2 by simp
  moreover have "list_all2 answers_tool_use (st_conv ?st1 # new) (block_tool_uses (ToolUseBlock b # bs))"
    using ans ih(7) by simp
  ultimately have "\<exists>new. st_requests st' = st_requests st @ new
      \<and> list_all2 answers_tool_use new (block_tool_uses (ToolUseBlock b # bs))"
    by blast
  with ih(1-5) rs st2 show ?case by simp
next
  case (4 tool_map k bs pending st)
  from "4.IH" [OF "4.prems" [simplified]] show ?case by simp
qed

text \<open>
  \<^verbatim>\<open>handle(message)\<close>: the \<^verbatim>\<open>while pending\<close> loop. The result is \<open>None\<close> when the list
  of responses ends before the loop does.
\<close>

function handle_loop ::
  "(string \<rightharpoonup> handler) \<Rightarrow> bool \<Rightarrow> model_message \<Rightarrow> model_message list \<Rightarrow> agent_state \<Rightarrow>
     agent_state option" where
  "handle_loop tool_map debug message pending st =
     (case pending of
        [] \<Rightarrow> Some st
      | current # rest \<Rightarrow>
          (case process_blocks tool_map (msg_content current) rest
                  (st\<lparr>st_conv := st_conv st @ [(msg_role message, ModelBlocks (msg_content current))],
                      st_handled := st_handled st @ [current],
                      st_printed := st_printed st @ (if debug then [PrintDebug] else [])\<rparr>) of
             None \<Rightarrow> None
           | Some (pending', st') \<Rightarrow> handle_loop tool_map debug message pending' st'))"
  by pat_completeness auto
termination
proof (relation "measure (\<lambda>(tool_map, debug, message, pending, st).
    length pending + length (st_responses st))")
  show "wf (measure (\<lambda>(tool_map, debug, message, pending, st).
    length pending + length (st_responses st)))"
    by simp
next
  fix tool_map :: "string \<rightharpoonup> handler" and debug :: bool and message current :: model_message
    and pending rest :: "model_message list" and st :: agent_state and x y pending' st'
  assume p: "pending = current # rest"
    and x: "process_blocks tool_map (msg_content current) rest
        (st\<lparr>st_conv := st_conv st @ [(msg_role message, ModelBlocks (msg_content current))],
            st_handled := st_handled st @ [current],
            st_printed := st_printed st @ (if debug then [PrintDebug] else [])\<rparr>) = Some x"
    and y: "(pending', st') = x"
  from x y process_blocks_effect [of tool_map "msg_content current" rest _ pending' st']
  have "length pending' + length (st_responses st') = length rest + length (st_responses st)"
    by auto
  with p show "((tool_map, debug, message, pending', st'), (tool_map, debug, message, pending, st))
      \<in> measure (\<lambda>(tool_map, debug, message, pending, st).
          length pending + length (st_responses st))"
    by simp
qed

declare handle_loop.simps [simp del]

definition handle ::
  "(string \<rightharpoonup> handler) \<Rightarrow> bool \<Rightarrow> model_message \<Rightarrow> agent_state \<Rightarrow> agent_state option" where
  "handle tool_map debug message st = handle_loop tool_map debug message [message] st"

text \<open>One round of \<^verbatim>\<open>loop\<close>: the user's line, the first call to the service, \<^verbatim>\<open>handle\<close>.\<close>

definition turn ::
  "(string \<rightharpoonup> handler) \<Rightarrow> bool \<Rightarrow> string \<Rightarrow> agent_state \<Rightarrow> agent_state option" where
  "turn tool_map debug user_input st =
     (if user_input = [] then Some st
      else
        (case create (st\<lparr>st_conv := st_conv st @ [(''user'', UserText user_input)]\<rparr>) of
           None \<Rightarrow> None
         | Some (message, st') \<Rightarrow> handle tool_map debug message st'))"

section \<open>A sample project\<close>

text \<open>A small tree, rooted at \<^verbatim>\<open>/\<close>, and the working directory \<^verbatim>\<open>/home/u\<close> in it.\<close>

definition sample_fs :: fsnode where
  "sample_fs =
     Dir [(''home'', Dir [(''u'', Dir [(''a.txt'', File ''x y x''), (''d'', Dir [])])])]"

definition sample_cwd :: path where
  "sample_cwd = [''home'', ''u'']"

definition edit_input :: "string \<Rightarrow> string \<Rightarrow> string \<Rightarrow> payload" where
  "edit_input p old new = [''path'' \<mapsto> p, ''old_str'' \<mapsto> old, ''new_str'' \<mapsto> new]"

text \<open>
  A second tree, with an ignore file, and a toy pattern compiler for it: a path is
  matched when one of the patterns is a prefix of it.
\<close>

definition listing_fs :: fsnode where
  "listing_fs =
     Dir [(''home'', Dir [(''u'', Dir
            [(''b.txt'', File ''x''),
             (''.gitignore'', File [CHR ''b'', CHR ''u'', CHR ''i'', CHR ''l'', CHR ''d'', CHR ''/'',
                 CHR 0x0A, CHR ''a'', CHR ''.'', CHR ''t'', CHR ''x'', CHR ''t'', CHR 0x0A]),
             (''src'', Dir [(''m.py'', File []), (''sub'', Dir [])]),
             (''build'', Dir [(''o'', File [])]),
             (''a.txt'', File [])])]),
          (''etc'', Dir [(''hosts'', File [])]),
          (''motd'', File ''hello'')]"

definition prefix_matcher :: "string list \<Rightarrow> matcher" where
  "prefix_matcher patterns s = list_ex (\<lambda>p. prefix p s) patterns"

definition prefix_compiler :: pattern_compiler where
  "prefix_compiler patterns = Inr (prefix_matcher patterns)"

text \<open>Two \<^verbatim>\<open>tool_use\<close> blocks for the sample project.\<close>

definition sample_block :: "string \<Rightarrow> payload \<Rightarrow> tool_use" where
  "sample_block name inp = \<lparr>tu_id = ''toolu_01'', tu_name = name, tu_input = inp\<rparr>"

text \<open>Model messages and a starting state for the sample project.\<close>

definition sample_read :: "string \<Rightarrow> block" where
  "sample_read i =
     ToolUseBlock \<lparr>tu_id = i, tu_name = ''read_file'', tu_input = [''path'' \<mapsto> ''a.txt'']\<rparr>"

definition assistant :: "block list \<Rightarrow> model_message" where
  "assistant bs = \<lparr>msg_role = ''assistant'', msg_content = bs\<rparr>"

definition sample_state :: "model_message list \<Rightarrow> agent_state" where
  "sample_state rs =
     \<lparr>st_conv = [], st_files = sample_fs, st_printed = [], st_responses = rs,
      st_requests = [], st_dispatched = [], st_handled = []\<rparr>"

definition sample_tools :: "string \<rightharpoonup> handler" where
  "sample_tools = TOOL_MAP prefix_compiler None sample_cwd"

section \<open>Properties of the path sandbox\<close>

lemma parents_strict_prefix: "q \<in> set (parents p) \<longleftrightarrow> strict_prefix q p"
proof (induction p rule: parents.induct)
  case (1 p)
  show ?case
  proof (cases "p = []")
    case True
    then show ?thesis by (simp add: parents.simps)
  next
    case False
    then obtain ys y where p: "p = ys @ [y]"
      by (metis append_butlast_last_id)
    have "q \<in> set (parents p) \<longleftrightarrow> q = ys \<or> strict_prefix q ys"
      using 1 False p by (subst parents.simps) simp
    also have "\<dots> \<longleftrightarrow> strict_prefix q p"
      unfolding p strict_prefix_def by (auto simp: prefix_snoc)
    finally show ?thesis .
  qed
qed

lemma sandbox_check: "(base \<notin> set (parents p) \<and> p \<noteq> base) \<longleftrightarrow> \<not> prefix base p"
  by (auto simp: parents_strict_prefix strict_prefix_def)

lemma foldl_resolve_step_plain:
  "''..'' \<notin> set xs \<Longrightarrow> foldl resolve_step acc xs = acc @ xs"
  by (induction xs arbitrary: acc) (auto simp: resolve_step_def)

lemma realpath_plain: "''..'' \<notin> set xs \<Longrightarrow> realpath xs = xs"
  by (simp add: realpath_def foldl_resolve_step_plain)



lemma resolve_relative_eq:
  "resolve_relative root p =
     (if p = [] then Inl (ValueError msg_path_required)
      else if is_absolute p then Inl (ValueError ''Absolute paths are not allowed'')
      else if \<not> prefix root (candidate root p) then Inl (ValueError ''Path escapes project root'')
      else Inr (candidate root p))"
  unfolding resolve_relative_def Let_def candidate_def sandbox_check by simp



text \<open>
  Claim C2, as stated, fails: the input \<^verbatim>\<open>.\<close> is not empty, is accepted, and resolves to
  the project root itself, which is not a strict descendant of the root.
\<close>

theorem resolve_relative_dot_counterexample:
  "''.'' \<noteq> [] \<and> resolve_relative [''home'', ''u''] ''.'' = Inr [''home'', ''u'']
   \<and> \<not> strict_prefix [''home'', ''u''] [''home'', ''u'']"
  by (simp add: resolve_relative_eq candidate_def realpath_def parse_parts_def
      resolve_step_def is_absolute_def)

text \<open>
  Claim C2, amended. Every path \<^verbatim>\<open>_resolve_relative\<close> accepts comes from a non-empty
  relative input and is the project root or a strict descendant of it. The root itself
  is accepted: a non-empty relative input with no segment left after dropping
  \<^verbatim>\<open>.\<close> and empty segments resolves to it.
\<close>

theorem resolve_relative_accepted:
  "(resolve_relative root p = Inr r \<longrightarrow>
      p \<noteq> [] \<and> \<not> is_absolute p \<and> r = candidate root p \<and> (r = root \<or> strict_prefix root r))
   \<and> (p \<noteq> [] \<and> \<not> is_absolute p \<and> ''..'' \<notin> set root \<and> parse_parts p = []
        \<longrightarrow> resolve_relative root p = Inr root)"
proof -
  have a: "p \<noteq> [] \<and> \<not> is_absolute p \<and> r = candidate root p \<and> (r = root \<or> strict_prefix root r)"
    if "resolve_relative root p = Inr r"
    using that by (auto simp: resolve_relative_eq strict_prefix_def split: if_splits)
  have b: "resolve_relative root p = Inr root"
    if "p \<noteq> []" "\<not> is_absolute p" "''..'' \<notin> set root" "parse_parts p = []"
    using that by (simp add: resolve_relative_eq candidate_def realpath_plain)
  show ?thesis
    using a b by blast
qed

theorem resolve_relative_accepted_witness:
  "resolve_relative [''home'', ''u''] ''src/main.py'' = Inr [''home'', ''u'', ''src'', ''main.py'']
   \<and> strict_prefix [''home'', ''u''] [''home'', ''u'', ''src'', ''main.py'']
   \<and> resolve_relative [''home'', ''u''] ''./'' = Inr [''home'', ''u'']"
proof -
  have r: "resolve_relative [''home'', ''u''] ''src/main.py'' = Inr [''home'', ''u'', ''src'', ''main.py'']"
    by (simp add: resolve_relative_eq candidate_def realpath_def parse_parts_def
        resolve_step_def is_absolute_def)
  have e: "parse_parts ''./'' = []"
    by (simp add: parse_parts_def)
  show ?thesis
    using resolve_relative_accepted [of "[''home'', ''u'']" "''src/main.py''" "[''home'', ''u'', ''src'', ''main.py'']"]
      resolve_relative_accepted [of "[''home'', ''u'']" "''./''" "[]"] r e
    by (simp add: is_absolute_def strict_prefix_def candidate_def realpath_def
        parse_parts_def resolve_step_def)
qed

section \<open>Properties of the file system\<close>

lemma fs_write_lookup: "fs_write fs p x = Inr fs' \<Longrightarrow> lookup fs' p = Some (File x)"
  by (induction fs p x arbitrary: fs' rule: fs_write.induct)
    (auto split: option.splits sum.splits if_splits simp: update_conv')



lemma fs_write_new:
  "lookup fs (q @ [n]) = None \<Longrightarrow> lookup fs q = Some (Dir es) \<Longrightarrow> \<exists>fs'. fs_write fs (q @ [n]) x = Inr fs'"
proof (induction fs q arbitrary: es rule: lookup.induct)
  case (1 nd)
  then show ?case by (cases nd) (auto split: option.splits)
next
  case (2 c s ss)
  then show ?case by simp
next
  case (3 es' s ss)
  show ?case
  proof (cases "map_of es' s")
    case None
    with 3 show ?thesis by simp
  next
    case (Some nd)
    with 3(2,3) have "lookup nd (ss @ [n]) = None" "lookup nd ss = Some (Dir es)"
      by simp_all
    with 3(1) [OF Some] obtain fs' where "fs_write nd (ss @ [n]) x = Inr fs'"
      by blast
    with Some show ?thesis by simp
  qed
qed



lemma fs_write_not_EEXIST: "fs_write fs p x \<noteq> Inl EEXIST"
  by (induction fs p x rule: fs_write.induct) (auto split: option.splits sum.splits if_splits)

lemma fs_mkdir_p_is_dir: "fs_mkdir_p fs q = Inr fs1 \<Longrightarrow> \<exists>es. lookup fs1 q = Some (Dir es)"
  by (induction fs q arbitrary: fs1 rule: fs_mkdir_p.induct)
    (auto split: option.splits sum.splits simp: update_conv')

lemma lookup_empty_dir: "p \<noteq> [] \<Longrightarrow> lookup (Dir []) p = None"
  by (cases p) simp_all

lemma fs_mkdir_p_keeps_missing:
  "fs_mkdir_p fs q = Inr fs1 \<Longrightarrow> lookup fs (q @ [n]) = None \<Longrightarrow> lookup fs1 (q @ [n]) = None"
  by (induction fs q arbitrary: fs1 rule: fs_mkdir_p.induct)
    (auto split: option.splits sum.splits simp: update_conv' lookup_empty_dir)


lemma fs_mkdir_p_ok:
  "(\<forall>k \<le> length q. \<not> is_file fs (take k q)) \<Longrightarrow> \<exists>fs1. fs_mkdir_p fs q = Inr fs1"
proof (induction fs q rule: fs_mkdir_p.induct)
  case (1 es)
  then show ?case by simp
next
  case (2 c)
  from 2 [rule_format, of 0] show ?case by (simp add: is_file_def)
next
  case (3 c s ss)
  from 3 [rule_format, of 0] show ?case by (simp add: is_file_def)
next
  case (4 es s ss)
  let ?n = "case map_of es s of None \<Rightarrow> Dir [] | Some n \<Rightarrow> n"
  have "\<forall>k \<le> length ss. \<not> is_file ?n (take k ss)"
  proof (intro allI impI)
    fix k assume "k \<le> length ss"
    then have "\<not> is_file (Dir es) (take (Suc k) (s # ss))"
      using 4(2) by (metis Suc_le_mono length_Cons)
    then show "\<not> is_file ?n (take k ss)"
      by (cases k; cases ss) (auto simp: is_file_def split: option.splits fsnode.splits)
  qed
  then obtain n' where "fs_mkdir_p ?n ss = Inr n'"
    using 4(1) by blast
  then show ?case by simp
qed

section \<open>Properties of string replacement and of text input\<close>




lemma universal_newlines_id: "CHR 0x0D \<notin> set s \<Longrightarrow> universal_newlines s = s"
  by (induction s rule: universal_newlines.induct) auto

lemma universal_newlines_no_CR: "CHR 0x0D \<notin> set (universal_newlines s)"
  by (induction s rule: universal_newlines.induct) auto

section \<open>Properties of the file tools\<close>

lemma lookup_snoc_Some:
  "lookup fs (q @ [n]) = Some nd \<Longrightarrow> \<exists>es. lookup fs q = Some (Dir es)"
  by (induction fs q rule: lookup.induct)
    (auto split: option.splits fsnode.splits elim: lookup.elims)




text \<open>The create branch: what it returns in terms of the two file-system calls.\<close>

lemma edit_file_create:
  assumes "inp ''path'' = Some p" "inp ''old_str'' = Some []" "inp ''new_str'' = Some new"
    and "resolve_relative cwd p = Inr path" and "lookup fs path = None"
  shows "edit_file cwd inp fs =
     (case (if lookup fs (butlast path) = None then mkdir_parents fs (butlast path) else Inr fs) of
        Inl e \<Rightarrow> (Inl e, fs)
      | Inr fs1 \<Rightarrow>
          (case write_text fs1 path new of
             Inl e \<Rightarrow> (Inl e, fs1)
           | Inr fs2 \<Rightarrow> (Inr (''Created new file: '' @ p), fs2)))"
  using assms by (simp add: edit_file_def path_exists_def)





text \<open>
  Claim C6, amended. When the sandbox accepts the target, the target does not exist and
  none of its ancestors is a regular file, \<^verbatim>\<open>edit_file\<close> with an empty \<^verbatim>\<open>old_str\<close>
  creates the file, and the missing directories above it, with \<open>X\<close> as its text; a
  following \<^verbatim>\<open>read_file\<close> returns \<open>X\<close> with every \<^verbatim>\<open>\r\n\<close> and \<^verbatim>\<open>\r\<close> turned into
  \<^verbatim>\<open>\n\<close>, which is \<open>X\<close> itself when \<open>X\<close> holds no carriage return.
\<close>

theorem edit_file_create_then_read:
  assumes "inp ''path'' = Some p" "inp ''old_str'' = Some []" "inp ''new_str'' = Some X"
    and "inp' ''path'' = Some p"
    and "resolve_relative cwd p = Inr path"
    and "\<not> path_exists fs path"
    and "\<forall>k < length path. \<not> is_file fs (take k path)"
  shows "\<exists>fs'. edit_file cwd inp fs = (Inr (''Created new file: '' @ p), fs')
           \<and> lookup fs' path = Some (File X)
           \<and> is_dir fs' (butlast path)
           \<and> read_file cwd inp' fs' = Inr (universal_newlines X)
           \<and> (CHR 0x0D \<notin> set X \<longrightarrow> read_file cwd inp' fs' = Inr X)"
proof -
  have miss: "lookup fs path = None"
    using assms(6) by (simp add: path_exists_def)
  then have ne: "path \<noteq> []" by auto
  then have path: "path = butlast path @ [last path]" by simp
  have anc: "\<forall>k \<le> length (butlast path). \<not> is_file fs (take k (butlast path))"
  proof (intro allI impI)
    fix k assume "k \<le> length (butlast path)"
    moreover have "length (butlast path) < length path" using ne by simp
    ultimately have k: "k < length path" by linarith
    then have "take k (butlast path) = take k path"
      by (rule take_butlast)
    with k show "\<not> is_file fs (take k (butlast path))"
      using assms(7) by simp
  qed
  obtain fs1 where fs1: "(if lookup fs (butlast path) = None then mkdir_parents fs (butlast path)
      else Inr fs) = Inr fs1"
    and d: "\<exists>es. lookup fs1 (butlast path) = Some (Dir es)"
    and m: "lookup fs1 (butlast path @ [last path]) = None"
  proof (cases "lookup fs (butlast path)")
    case None
    obtain fs1 where mk: "fs_mkdir_p fs (butlast path) = Inr fs1"
      using fs_mkdir_p_ok [OF anc] by blast
    have "lookup fs1 (butlast path @ [last path]) = None"
      using fs_mkdir_p_keeps_missing [OF mk] miss path by metis
    with that [of fs1] None mk fs_mkdir_p_is_dir [OF mk] show ?thesis
      by (simp add: mkdir_parents_def)
  next
    case (Some nd)
    have "\<not> is_file fs (take (length (butlast path)) (butlast path))"
      using anc by blast
    with Some obtain es where "nd = Dir es"
      by (cases nd) (auto simp: is_file_def)
    with that [of fs] Some miss path show ?thesis by simp
  qed
  from d obtain es where d': "lookup fs1 (butlast path) = Some (Dir es)" by blast
  obtain fs2 where "fs_write fs1 (butlast path @ [last path]) X = Inr fs2"
    using fs_write_new [OF m d'] by blast
  then have w: "fs_write fs1 path X = Inr fs2" using path by simp
  have l: "lookup fs2 path = Some (File X)"
    by (rule fs_write_lookup [OF w])
  have e: "edit_file cwd inp fs = (Inr (''Created new file: '' @ p), fs2)"
    using edit_file_create [OF assms(1-3) assms(5) miss] fs1 w
    by (simp add: write_text_def)
  have pd: "is_dir fs2 (butlast path)"
    using lookup_snoc_Some [of fs2 "butlast path" "last path"] l path
    by (auto simp: is_dir_def)
  have r: "read_file cwd inp' fs2 = Inr (universal_newlines X)"
    using assms(4,5) l by (simp add: read_file_def path_exists_def is_dir_def read_text_def)
  show ?thesis
    using e l pd r by (auto simp: universal_newlines_id)
qed

section \<open>The file tools on the sample project\<close>

lemma sample_resolve:
  "resolve_relative sample_cwd ''zz'' = Inr [''home'', ''u'', ''zz'']"
  "resolve_relative sample_cwd ''d'' = Inr [''home'', ''u'', ''d'']"
  "resolve_relative sample_cwd ''a.txt'' = Inr [''home'', ''u'', ''a.txt'']"
  "resolve_relative sample_cwd ''n/m/new.txt'' = Inr [''home'', ''u'', ''n'', ''m'', ''new.txt'']"
  by (simp_all add: resolve_relative_eq candidate_def realpath_def parse_parts_def
      resolve_step_def is_absolute_def sample_cwd_def)

lemma edit_input_keys:
  "edit_input p old new ''path'' = Some p"
  "edit_input p old new ''old_str'' = Some old"
  "edit_input p old new ''new_str'' = Some new"
  by (simp_all add: edit_input_def)



theorem edit_file_create_then_read_witness:
  "\<exists>fs'. edit_file sample_cwd (edit_input ''n/m/new.txt'' '''' ''hi'') sample_fs =
          (Inr ''Created new file: n/m/new.txt'', fs')
        \<and> is_dir fs' [''home'', ''u'', ''n'', ''m'']
        \<and> read_file sample_cwd [''path'' \<mapsto> ''n/m/new.txt''] fs' = Inr ''hi''"
proof -
  have k: "[''path'' \<mapsto> ''n/m/new.txt''] ''path'' = Some ''n/m/new.txt''"
    by simp
  have miss: "\<not> path_exists sample_fs [''home'', ''u'', ''n'', ''m'', ''new.txt'']"
    by (simp add: path_exists_def sample_fs_def)
  have anc: "\<forall>k < length [''home'', ''u'', ''n'', ''m'', ''new.txt''].
      \<not> is_file sample_fs (take k [''home'', ''u'', ''n'', ''m'', ''new.txt''])"
    by (simp add: is_file_def sample_fs_def take_Cons' less_Suc_eq)
  show ?thesis
    using edit_file_create_then_read [where inp = "edit_input ''n/m/new.txt'' '''' ''hi''"
        and inp' = "[''path'' \<mapsto> ''n/m/new.txt'']",
        OF edit_input_keys k sample_resolve(4) miss anc]
    by auto
qed

text \<open>
  Claim C6, as stated, fails: a text with a carriage return is written as it is and read
  back with the carriage return turned into a line feed.
\<close>

theorem edit_file_round_trip_counterexample:
  "\<not> path_exists sample_fs [''home'', ''u'', ''zz'']
   \<and> fst (edit_file sample_cwd (edit_input ''zz'' '''' [CHR ''a'', CHR 0x0D, CHR ''b'']) sample_fs) =
       Inr ''Created new file: zz''
   \<and> read_file sample_cwd [''path'' \<mapsto> ''zz'']
       (snd (edit_file sample_cwd (edit_input ''zz'' '''' [CHR ''a'', CHR 0x0D, CHR ''b'']) sample_fs)) =
       Inr [CHR ''a'', CHR 0x0A, CHR ''b'']
   \<and> [CHR ''a'', CHR 0x0A, CHR ''b''] \<noteq> [CHR ''a'', CHR 0x0D, CHR ''b'']"
  by (simp add: sample_resolve edit_file_def read_file_def edit_input_def path_exists_def
      is_dir_def read_text_def write_text_def sample_fs_def)

section \<open>Properties of the directory walk\<close>

lemma lookup_append:
  "lookup fs (p @ q) = (case lookup fs p of None \<Rightarrow> None | Some n \<Rightarrow> lookup n q)"
  by (induction fs p rule: lookup.induct) (auto split: option.splits)

lemma wf_fs_lookup: "wf_fs fs \<Longrightarrow> lookup fs p = Some n \<Longrightarrow> wf_fs n"
proof (induction fs p rule: lookup.induct)
  case (1 n)
  then show ?case by simp
next
  case (2 c s ss)
  then show ?case by simp
next
  case (3 es s ss)
  then obtain nd where nd: "map_of es s = Some nd" "lookup nd ss = Some n"
    by (auto split: option.splits)
  then have "(s, nd) \<in> set es" by (auto dest: map_of_SomeD)
  with 3(2) have "wf_fs nd" by auto
  with 3(1) nd show ?case by simp
qed

lemma prune_dirs_mset:
  "mset (prune_dirs ignore rel ds acc) =
     mset acc - mset (filter (\<lambda>d. ignore (join_sep (rel @ [d]) @ ''/'')) ds)"
  by (induction ds arbitrary: acc) (auto simp: diff_diff_add)

lemma prune_dirs_set:
  "set (prune_dirs ignore rel ds ds) = {d \<in> set ds. \<not> ignore (join_sep (rel @ [d]) @ ''/'')}"
proof -
  let ?bad = "\<lambda>d. ignore (join_sep (rel @ [d]) @ ''/'')"
  have "mset ds = mset (filter ?bad ds) + mset (filter (\<lambda>d. \<not> ?bad d) ds)"
    by (induction ds) auto
  then have "mset ds - mset (filter ?bad ds) = mset (filter (\<lambda>d. \<not> ?bad d) ds)"
    by (metis add_diff_cancel_left')
  then have "mset (prune_dirs ignore rel ds ds) = mset (filter (\<lambda>d. \<not> ?bad d) ds)"
    by (simp add: prune_dirs_mset)
  then have "set (prune_dirs ignore rel ds ds) = set (filter (\<lambda>d. \<not> ?bad d) ds)"
    by (rule mset_eq_setD)
  then show ?thesis by auto
qed

lemma os_walk_visited:
  "(rel', dirs, files) \<in> set (os_walk ignore rel node) \<Longrightarrow>
     \<exists>p es. rel' = rel @ p \<and> lookup node p = Some (Dir es)
       \<and> set dirs = {d \<in> set (dir_names es). \<not> ignore (join_sep (rel' @ [d]) @ ''/'')}
       \<and> files = file_names es
       \<and> (\<forall>k < length p. \<not> ignore (join_sep (rel @ take (Suc k) p) @ ''/''))"
proof (induction ignore rel node arbitrary: rel' dirs files rule: os_walk.induct)
  case (1 ignore rel c)
  then show ?case by simp
next
  case (2 ignore rel es)
  let ?dirs = "prune_dirs ignore rel (dir_names es) (dir_names es)"
  from "2.prems" consider
    (here) "rel' = rel" "dirs = ?dirs" "files = file_names es"
    | (below) d sub where "d \<in> set ?dirs" "map_of es d = Some sub"
        "(rel', dirs, files) \<in> set (os_walk ignore (rel @ [d]) sub)"
    by (auto simp: Let_def split: option.splits) (metis (no_types))
  then show ?case
  proof cases
    case here
    then have "rel' = rel @ [] \<and> lookup (Dir es) [] = Some (Dir es)
       \<and> set dirs = {d \<in> set (dir_names es). \<not> ignore (join_sep (rel' @ [d]) @ ''/'')}
       \<and> files = file_names es
       \<and> (\<forall>k < length ([] :: string list). \<not> ignore (join_sep (rel @ take (Suc k) []) @ ''/''))"
      by (simp add: prune_dirs_set)
    then show ?thesis by blast
  next
    case below
    from "2.IH" [OF refl refl below(1,2,3)]
    obtain p es' where p: "rel' = (rel @ [d]) @ p" "lookup sub p = Some (Dir es')"
      "set dirs = {d \<in> set (dir_names es'). \<not> ignore (join_sep (rel' @ [d]) @ ''/'')}"
      "files = file_names es'"
      "\<forall>k < length p. \<not> ignore (join_sep ((rel @ [d]) @ take (Suc k) p) @ ''/'')"
      by blast
    have d: "\<not> ignore (join_sep (rel @ [d]) @ ''/'')"
      using below(1) by (simp add: prune_dirs_set)
    have "\<forall>k < length (d # p). \<not> ignore (join_sep (rel @ take (Suc k) (d # p)) @ ''/'')"
    proof (intro allI impI)
      fix k assume "k < length (d # p)"
      then show "\<not> ignore (join_sep (rel @ take (Suc k) (d # p)) @ ''/'')"
        using d p(5) by (cases k) auto
    qed
    moreover have "rel' = rel @ d # p" using p(1) by simp
    moreover have "lookup (Dir es) (d # p) = Some (Dir es')" using below(2) p(2) by simp
    ultimately show ?thesis using p(3,4) by blast
  qed
qed

lemma entries_member:
  "r \<in> set (entries ignore base rel names) \<Longrightarrow>
     \<exists>name \<in> set names. \<not> ignore (join_sep (rel @ [name]))
       \<and> r = join_sep (rel @ [name]) @ (if is_dir base (rel @ [name]) then ''/'' else [])"
  by (induction names) (auto simp: Let_def split: if_splits)

lemma file_names_lookup:
  assumes "distinct (map fst es)" "name \<in> set (file_names es)"
  shows "\<exists>c. map_of es name = Some (File c)"
proof -
  from assms(2) obtain nd where "(name, nd) \<in> set es" "\<not> is_Dir nd"
    by (auto simp: file_names_def)
  then show ?thesis
    using assms(1) by (cases nd) (auto dest: map_of_is_SomeI)
qed

lemma dir_names_lookup:
  assumes "distinct (map fst es)" "name \<in> set (dir_names es)"
  shows "\<exists>es'. map_of es name = Some (Dir es')"
proof -
  from assms(2) obtain nd where "(name, nd) \<in> set es" "is_Dir nd"
    by (auto simp: dir_names_def)
  then show ?thesis
    using assms(1) by (cases nd) (auto dest: map_of_is_SomeI)
qed

lemma walk_results_member:
  assumes wf: "wf_fs base" and r: "r \<in> set (walk_results ignore base)"
  shows "\<exists>segs. segs \<noteq> [] \<and> path_exists base segs
     \<and> r = join_sep segs @ (if is_dir base segs then ''/'' else [])
     \<and> \<not> ignore (join_sep segs) \<and> \<not> ignore r
     \<and> (\<forall>k. 0 < k \<and> k < length segs \<longrightarrow> \<not> ignore (join_sep (take k segs) @ ''/''))"
proof -
  from r obtain rel dirs files where v: "(rel, dirs, files) \<in> set (os_walk ignore [] base)"
    and e: "r \<in> set (entries ignore base rel (files @ dirs))"
    by (auto simp: walk_results_def)
  from os_walk_visited [OF v] obtain es where es: "lookup base rel = Some (Dir es)"
    and dirs: "set dirs = {d \<in> set (dir_names es). \<not> ignore (join_sep (rel @ [d]) @ ''/'')}"
    and files: "files = file_names es"
    and anc: "\<forall>k < length rel. \<not> ignore (join_sep (take (Suc k) rel) @ ''/'')"
    by auto
  from entries_member [OF e] obtain name where name: "name \<in> set (files @ dirs)"
    "\<not> ignore (join_sep (rel @ [name]))"
    "r = join_sep (rel @ [name]) @ (if is_dir base (rel @ [name]) then ''/'' else [])"
    by blast
  have dist: "distinct (map fst es)"
    using wf_fs_lookup [OF wf es] by simp
  have lk: "lookup base (rel @ [name]) = map_of es name"
    using es by (simp add: lookup_append split: option.splits)
  have ex: "path_exists base (rel @ [name])"
    and nr: "\<not> ignore r"
  proof -
    from name(1) consider (f) "name \<in> set (file_names es)" | (d) "name \<in> set dirs"
      using files by auto
    then have "path_exists base (rel @ [name]) \<and> \<not> ignore r"
    proof cases
      case f
      then obtain c where "map_of es name = Some (File c)"
        using file_names_lookup [OF dist] by blast
      then show ?thesis
        using lk name(2,3) by (simp add: path_exists_def is_dir_def)
    next
      case d
      then have dn: "name \<in> set (dir_names es)" and ni: "\<not> ignore (join_sep (rel @ [name]) @ ''/'')"
        using dirs by auto
      from dn obtain es' where "map_of es name = Some (Dir es')"
        using dir_names_lookup [OF dist] by blast
      then show ?thesis
        using lk name(3) ni by (simp add: path_exists_def is_dir_def)
    qed
    then show "path_exists base (rel @ [name])" "\<not> ignore r" by simp_all
  qed
  have "\<forall>k. 0 < k \<and> k < length (rel @ [name]) \<longrightarrow>
      \<not> ignore (join_sep (take k (rel @ [name])) @ ''/'')"
  proof (intro allI impI)
    fix k assume k: "0 < k \<and> k < length (rel @ [name])"
    then obtain j where j: "k = Suc j" "j < length rel"
      by (cases k) auto
    then have "take k (rel @ [name]) = take (Suc j) rel" by simp
    with anc j show "\<not> ignore (join_sep (take k (rel @ [name])) @ ''/'')" by simp
  qed
  with ex nr name(2,3) show ?thesis
    by (intro exI [of _ "rel @ [name]"]) simp
qed

section \<open>Properties of listing files\<close>

lemma is_dir_append:
  "lookup fs base = Some node \<Longrightarrow> is_dir fs (base @ p) = is_dir node p"
  by (simp add: is_dir_def lookup_append)

lemma path_exists_append:
  "lookup fs base = Some node \<Longrightarrow> path_exists fs (base @ p) = path_exists node p"
  by (simp add: path_exists_def lookup_append)

lemma is_dir_take:
  "path_exists node p \<Longrightarrow> k < length p \<Longrightarrow> is_dir node (take k p)"
proof (induction node p arbitrary: k rule: lookup.induct)
  case (1 n)
  then show ?case by simp
next
  case (2 c s ss)
  then show ?case by (simp add: path_exists_def)
next
  case (3 es s ss)
  show ?case
  proof (cases k)
    case 0
    then show ?thesis by (simp add: is_dir_def)
  next
    case (Suc j)
    from 3(2) obtain nd where nd: "map_of es s = Some nd" "path_exists nd ss"
      by (auto simp: path_exists_def split: option.splits)
    with 3(1) [OF nd(1), of j] 3(3) Suc have "is_dir nd (take j ss)" by simp
    with nd Suc show ?thesis by (simp add: is_dir_def)
  qed
qed


text \<open>
  Claim C4. When \<^verbatim>\<open>list_files\<close> lists an existing directory of a well-formed tree under
  the rule set compiled from the ignore sources, it returns the JSON array of a
  lexicographically sorted list, the one sorted arrangement of the paths that survive,
  whatever order the walk met them in. No element of the array is matched by the rule
  set; every element is the relative path of an existing entry, with a trailing
  \<^verbatim>\<open>/\<close> exactly when the entry is a directory; none of the directories above the entry
  is matched as a directory; and the walk visits no directory that is matched as a
  directory or lies below one.
\<close>

theorem list_files_respects_ignore:
  assumes "wf_fs fs"
    and "is_dir fs (base_dir_of cwd inp)"
    and "get_gitignore from_lines excludes fs (base_dir_of cwd inp) = Inr ignore"
  shows "\<exists>rs node. lookup fs (base_dir_of cwd inp) = Some node
     \<and> list_files from_lines excludes cwd inp fs = Inr (json_dumps rs)
     \<and> sorted rs
     \<and> (\<forall>rs'. mset rs' = mset (walk_results ignore node) \<longrightarrow> sort rs' = rs)
     \<and> (\<forall>r \<in> set rs. \<not> ignore r
          \<and> (\<exists>segs. segs \<noteq> [] \<and> path_exists fs (base_dir_of cwd inp @ segs)
               \<and> r = join_sep segs @ (if is_dir fs (base_dir_of cwd inp @ segs) then ''/'' else [])
               \<and> \<not> ignore (join_sep segs)
               \<and> (\<forall>k. 0 < k \<and> k < length segs \<longrightarrow>
                     is_dir fs (base_dir_of cwd inp @ take k segs)
                     \<and> \<not> ignore (join_sep (take k segs) @ ''/''))))
     \<and> (\<forall>v \<in> set (os_walk ignore [] node). is_dir fs (base_dir_of cwd inp @ fst v)
          \<and> (\<forall>k < length (fst v). \<not> ignore (join_sep (take (Suc k) (fst v)) @ ''/'')))"
proof -
  let ?base = "base_dir_of cwd inp"
  from assms(2) obtain es where node: "lookup fs ?base = Some (Dir es)"
    by (auto simp: is_dir_def split: option.splits fsnode.splits)
  let ?node = "Dir es"
  let ?rs = "sort (walk_results ignore ?node)"
  have wf: "wf_fs ?node"
    by (rule wf_fs_lookup [OF assms(1) node])
  have out: "list_files from_lines excludes cwd inp fs = Inr (json_dumps ?rs)"
    using assms(2,3) node
    by (simp add: list_files_def base_dir_of_def Let_def path_exists_def is_dir_def)
  have uniq: "\<forall>rs'. mset rs' = mset (walk_results ignore ?node) \<longrightarrow> sort rs' = ?rs"
    by (metis properties_for_sort sorted_sort mset_sort)
  have elems: "\<not> ignore r
          \<and> (\<exists>segs. segs \<noteq> [] \<and> path_exists fs (?base @ segs)
               \<and> r = join_sep segs @ (if is_dir fs (?base @ segs) then ''/'' else [])
               \<and> \<not> ignore (join_sep segs)
               \<and> (\<forall>k. 0 < k \<and> k < length segs \<longrightarrow>
                     is_dir fs (?base @ take k segs)
                     \<and> \<not> ignore (join_sep (take k segs) @ ''/'')))"
    if "r \<in> set ?rs" for r
  proof -
    from that have "r \<in> set (walk_results ignore ?node)" by simp
    from walk_results_member [OF wf this]
    obtain segs where s: "segs \<noteq> []" "path_exists ?node segs"
      "r = join_sep segs @ (if is_dir ?node segs then ''/'' else [])"
      "\<not> ignore (join_sep segs)" "\<not> ignore r"
      "\<forall>k. 0 < k \<and> k < length segs \<longrightarrow> \<not> ignore (join_sep (take k segs) @ ''/'')"
      by blast
    have "is_dir fs (?base @ take k segs)" if "k < length segs" for k
      using is_dir_take [OF s(2) that] by (simp add: is_dir_append [OF node])
    with s show ?thesis
      by (auto simp: is_dir_append [OF node] path_exists_append [OF node])
  qed
  have visited: "is_dir fs (?base @ fst v)
          \<and> (\<forall>k < length (fst v). \<not> ignore (join_sep (take (Suc k) (fst v)) @ ''/''))"
    if "v \<in> set (os_walk ignore [] ?node)" for v
  proof -
    obtain rel dirs files where v: "v = (rel, dirs, files)" by (cases v)
    from that have m: "(rel, dirs, files) \<in> set (os_walk ignore [] ?node)"
      unfolding v .
    from os_walk_visited [OF m] obtain p es' where p: "rel = [] @ p"
      "lookup ?node p = Some (Dir es')"
      "\<forall>k < length p. \<not> ignore (join_sep ([] @ take (Suc k) p) @ ''/'')"
      by blast
    from p(1,2) have "is_dir ?node rel" by (simp add: is_dir_def)
    then have "is_dir fs (?base @ rel)" by (simp only: is_dir_append [OF node])
    with p(1,3) v show ?thesis by simp
  qed
  have srt: "sorted ?rs" by simp
  from node out srt uniq elems visited show ?thesis by blast
qed







lemma listing_rules:
  "get_gitignore prefix_compiler None listing_fs sample_cwd =
     Inr (prefix_matcher [''build/'', ''a.txt''])"
  "get_gitignore prefix_compiler None listing_fs [''etc''] = Inr (prefix_matcher [])"
  by (simp_all add: get_gitignore_def prefix_compiler_def file_lines_def is_file_def
      read_text_def splitlines_def line_boundary_def listing_fs_def sample_cwd_def)


theorem list_files_respects_ignore_witness:
  "\<exists>rs. list_files prefix_compiler None sample_cwd Map.empty listing_fs = Inr (json_dumps rs)
     \<and> sorted rs \<and> ''build/'' \<notin> set rs \<and> ''build/o'' \<notin> set rs \<and> ''a.txt'' \<notin> set rs"
proof -
  have base: "base_dir_of sample_cwd Map.empty = sample_cwd"
    by (simp add: base_dir_of_def path_resolve_def parse_parts_def is_absolute_def
        realpath_def resolve_step_def sample_cwd_def)
  have wf: "wf_fs listing_fs"
    by (simp add: listing_fs_def)
  have d: "is_dir listing_fs (base_dir_of sample_cwd Map.empty)"
    unfolding base by (simp add: is_dir_def listing_fs_def sample_cwd_def)
  have g: "get_gitignore prefix_compiler None listing_fs (base_dir_of sample_cwd Map.empty) =
     Inr (prefix_matcher [''build/'', ''a.txt''])"
    unfolding base by (rule listing_rules(1))
  from list_files_respects_ignore [OF wf d g]
  obtain rs where rs: "list_files prefix_compiler None sample_cwd Map.empty listing_fs = Inr (json_dumps rs)"
    "sorted rs" "\<forall>r \<in> set rs. \<not> prefix_matcher [''build/'', ''a.txt''] r"
    by blast
  from rs(3) have "''build/'' \<notin> set rs \<and> ''build/o'' \<notin> set rs \<and> ''a.txt'' \<notin> set rs"
    by (auto simp: prefix_matcher_def)
  with rs(1,2) show ?thesis by blast
qed

section \<open>Properties of tool dispatch\<close>

text \<open>
  Claim C3. \<^verbatim>\<open>run_tool\<close> returns a result for every block, and the result carries the
  identifier of the block. For a name the registry does not hold the result is an error
  with a descriptive message, the file system is untouched and nothing depends on the
  registered functions; an exception of the function becomes an error result with the text
  of the exception; the output of the function becomes the content of a result without
  the error flag.
\<close>

theorem run_tool_outcomes:
  "fst (run_tool tool_map block fs) ''tool_use_id'' = Some (JStr (tu_id block))
   \<and> fst (run_tool tool_map block fs) ''type'' = Some (JStr ''tool_result'')
   \<and> (tool_map (tu_name block) = None \<longrightarrow>
        fst (run_tool tool_map block fs) ''is_error'' = Some (JBool True)
        \<and> fst (run_tool tool_map block fs) ''content'' =
            Some (JStr (''Unknown tool '' @ quoted (tu_name block)))
        \<and> fst (snd (run_tool tool_map block fs)) = fs
        \<and> (\<forall>other. other (tu_name block) = None \<longrightarrow>
              run_tool other block fs = run_tool tool_map block fs))
   \<and> (\<forall>fn e fs'. tool_map (tu_name block) = Some fn \<and> fn (tu_input block) fs = (Inl e, fs') \<longrightarrow>
        fst (run_tool tool_map block fs) ''is_error'' = Some (JBool True)
        \<and> fst (run_tool tool_map block fs) ''content'' = Some (JStr (str_exc e))
        \<and> fst (snd (run_tool tool_map block fs)) = fs')
   \<and> (\<forall>fn output fs'. tool_map (tu_name block) = Some fn
          \<and> fn (tu_input block) fs = (Inr output, fs') \<longrightarrow>
        fst (run_tool tool_map block fs) ''is_error'' = None
        \<and> fst (run_tool tool_map block fs) ''content'' = Some (JStr output)
        \<and> fst (snd (run_tool tool_map block fs)) = fs')"
  by (auto simp: run_tool_def Let_def split: option.splits sum.splits prod.splits)

lemma sample_registry:
  "TOOL_MAP from_lines excludes cwd ''nope'' = None"
  "TOOL_MAP from_lines excludes cwd ''read_file'' = Some (read_file_tool cwd)"
  "TOOL_MAP from_lines excludes cwd ''edit_file'' = Some (edit_file cwd)"
  "TOOL_MAP from_lines excludes cwd ''list_files'' = Some (list_files_tool from_lines excludes cwd)"
  "agent_TOOL_MAP from_lines excludes cwd ''list_files'' = Some (list_files_tool from_lines excludes cwd)"
  "agent_TOOL_MAP from_lines excludes cwd ''read_file'' = None"
  by (simp_all add: TOOL_MAP_def ALL_TOOLS_def agent_TOOL_MAP_def agent_ALL_TOOLS_def tool_map_of_def)

lemma sample_reads:
  "read_file_tool sample_cwd [''path'' \<mapsto> ''a.txt''] sample_fs = (Inr ''x y x'', sample_fs)"
  "read_file_tool sample_cwd [''path'' \<mapsto> ''/a.txt''] sample_fs =
     (Inl (ValueError ''Absolute paths are not allowed''), sample_fs)"
  by (simp_all add: read_file_tool_def read_file_def resolve_relative_eq candidate_def
      realpath_def parse_parts_def resolve_step_def is_absolute_def sample_cwd_def
      path_exists_def is_dir_def read_text_def sample_fs_def)

theorem run_tool_outcomes_witness:
  "fst (run_tool (TOOL_MAP prefix_compiler None sample_cwd) (sample_block ''nope'' Map.empty)
       sample_fs) ''content'' = Some (JStr (''Unknown tool '' @ quoted ''nope''))
   \<and> fst (run_tool (TOOL_MAP prefix_compiler None sample_cwd)
       (sample_block ''read_file'' [''path'' \<mapsto> ''/a.txt'']) sample_fs) ''content'' =
       Some (JStr ''Absolute paths are not allowed'')
   \<and> fst (run_tool (TOOL_MAP prefix_compiler None sample_cwd)
       (sample_block ''read_file'' [''path'' \<mapsto> ''/a.txt'']) sample_fs) ''is_error'' =
       Some (JBool True)
   \<and> fst (run_tool (TOOL_MAP prefix_compiler None sample_cwd)
       (sample_block ''read_file'' [''path'' \<mapsto> ''a.txt'']) sample_fs) ''content'' =
       Some (JStr ''x y x'')
   \<and> fst (run_tool (TOOL_MAP prefix_compiler None sample_cwd)
       (sample_block ''read_file'' [''path'' \<mapsto> ''a.txt'']) sample_fs) ''is_error'' = None"
proof -
  let ?tm = "TOOL_MAP prefix_compiler None sample_cwd"
  note A = run_tool_outcomes [where tool_map = ?tm and block = "sample_block ''nope'' Map.empty"
      and fs = sample_fs]
  note B = run_tool_outcomes [where tool_map = ?tm
      and block = "sample_block ''read_file'' [''path'' \<mapsto> ''/a.txt'']" and fs = sample_fs]
  note C = run_tool_outcomes [where tool_map = ?tm
      and block = "sample_block ''read_file'' [''path'' \<mapsto> ''a.txt'']" and fs = sample_fs]
  have a: "?tm (tu_name (sample_block ''nope'' Map.empty)) = None"
    by (simp add: sample_block_def sample_registry)
  have b: "?tm (tu_name (sample_block ''read_file'' [''path'' \<mapsto> ''/a.txt''])) =
      Some (read_file_tool sample_cwd)
    \<and> read_file_tool sample_cwd (tu_input (sample_block ''read_file'' [''path'' \<mapsto> ''/a.txt'']))
        sample_fs = (Inl (ValueError ''Absolute paths are not allowed''), sample_fs)"
    by (simp add: sample_block_def sample_registry sample_reads)
  have c: "?tm (tu_name (sample_block ''read_file'' [''path'' \<mapsto> ''a.txt''])) =
      Some (read_file_tool sample_cwd)
    \<and> read_file_tool sample_cwd (tu_input (sample_block ''read_file'' [''path'' \<mapsto> ''a.txt'']))
        sample_fs = (Inr ''x y x'', sample_fs)"
    by (simp add: sample_block_def sample_registry sample_reads)
  from A [THEN conjunct2, THEN conjunct2, THEN conjunct1, rule_format, OF a]
  have 1: "fst (run_tool ?tm (sample_block ''nope'' Map.empty) sample_fs) ''content'' =
      Some (JStr (''Unknown tool '' @ quoted ''nope''))"
    by (simp add: sample_block_def)
  from B [THEN conjunct2, THEN conjunct2, THEN conjunct2, THEN conjunct1, rule_format, OF b]
  have 2: "fst (run_tool ?tm (sample_block ''read_file'' [''path'' \<mapsto> ''/a.txt'']) sample_fs)
       ''content'' = Some (JStr ''Absolute paths are not allowed'')"
    "fst (run_tool ?tm (sample_block ''read_file'' [''path'' \<mapsto> ''/a.txt'']) sample_fs)
       ''is_error'' = Some (JBool True)"
    by simp_all
  from C [THEN conjunct2, THEN conjunct2, THEN conjunct2, THEN conjunct2, rule_format, OF c]
  have 3: "fst (run_tool ?tm (sample_block ''read_file'' [''path'' \<mapsto> ''a.txt'']) sample_fs)
       ''content'' = Some (JStr ''x y x'')"
    "fst (run_tool ?tm (sample_block ''read_file'' [''path'' \<mapsto> ''a.txt'']) sample_fs)
       ''is_error'' = None"
    by simp_all
  from 1 2 3 show ?thesis by blast
qed

text \<open>
  Claim C10, as stated, fails: for a \<^verbatim>\<open>read_file\<close> block \<^verbatim>\<open>coding_agent\<close> runs the tool
  and returns its output, while \<^verbatim>\<open>agent\<close>, whose registry holds \<^verbatim>\<open>list_files\<close> only,
  returns an error result.
\<close>

theorem run_tool_versions_counterexample:
  "fst (run_tool (TOOL_MAP prefix_compiler None sample_cwd)
       (sample_block ''read_file'' [''path'' \<mapsto> ''a.txt'']) sample_fs) ''is_error'' = None
   \<and> fst (agent_run_tool (agent_TOOL_MAP prefix_compiler None sample_cwd)
       (sample_block ''read_file'' [''path'' \<mapsto> ''a.txt'']) sample_fs) ''is_error'' =
       Some (JBool True)
   \<and> run_tool (TOOL_MAP prefix_compiler None sample_cwd)
       (sample_block ''read_file'' [''path'' \<mapsto> ''a.txt'']) sample_fs \<noteq>
     agent_run_tool (agent_TOOL_MAP prefix_compiler None sample_cwd)
       (sample_block ''read_file'' [''path'' \<mapsto> ''a.txt'']) sample_fs"
proof -
  have a: "fst (run_tool (TOOL_MAP prefix_compiler None sample_cwd)
       (sample_block ''read_file'' [''path'' \<mapsto> ''a.txt'']) sample_fs) ''is_error'' = None"
    by (simp add: run_tool_def sample_block_def sample_registry sample_reads)
  have b: "fst (agent_run_tool (agent_TOOL_MAP prefix_compiler None sample_cwd)
       (sample_block ''read_file'' [''path'' \<mapsto> ''a.txt'']) sample_fs) ''is_error'' =
       Some (JBool True)"
    by (simp add: agent_run_tool_def Let_def sample_block_def sample_registry)
  from a b show ?thesis by auto
qed

text \<open>
  Claim C10, amended. For every block the results of the two versions agree on
  \<^verbatim>\<open>type\<close> and \<^verbatim>\<open>tool_use_id\<close>. For a block that names \<^verbatim>\<open>list_files\<close>, the one tool
  both registries hold, both versions call the same function, and when it returns its
  output the two results, the file system and the printed lines are identical.
\<close>

theorem run_tool_versions_agree:
  "fst (run_tool (TOOL_MAP from_lines excludes cwd) block fs) ''type'' =
     fst (agent_run_tool (agent_TOOL_MAP from_lines excludes cwd) block fs) ''type''
   \<and> fst (run_tool (TOOL_MAP from_lines excludes cwd) block fs) ''tool_use_id'' =
     fst (agent_run_tool (agent_TOOL_MAP from_lines excludes cwd) block fs) ''tool_use_id''
   \<and> (tu_name block = ''list_files'' \<longrightarrow>
        TOOL_MAP from_lines excludes cwd (tu_name block) =
          agent_TOOL_MAP from_lines excludes cwd (tu_name block))
   \<and> (tu_name block = ''list_files''
        \<and> list_files from_lines excludes cwd (tu_input block) fs = Inr out \<longrightarrow>
        run_tool (TOOL_MAP from_lines excludes cwd) block fs =
          agent_run_tool (agent_TOOL_MAP from_lines excludes cwd) block fs
        \<and> fst (run_tool (TOOL_MAP from_lines excludes cwd) block fs) ''content'' =
            Some (JStr out))"
proof -
  have ids: "fst (run_tool tm block fs) ''type'' = Some (JStr ''tool_result'')
      \<and> fst (run_tool tm block fs) ''tool_use_id'' = Some (JStr (tu_id block))
      \<and> fst (agent_run_tool tm' block fs) ''type'' = Some (JStr ''tool_result'')
      \<and> fst (agent_run_tool tm' block fs) ''tool_use_id'' = Some (JStr (tu_id block))"
    for tm tm'
    by (auto simp: run_tool_def agent_run_tool_def Let_def
        split: option.splits sum.splits prod.splits)
  have same: "run_tool (TOOL_MAP from_lines excludes cwd) block fs =
          agent_run_tool (agent_TOOL_MAP from_lines excludes cwd) block fs
        \<and> fst (run_tool (TOOL_MAP from_lines excludes cwd) block fs) ''content'' =
            Some (JStr out)"
    if "tu_name block = ''list_files''"
      "list_files from_lines excludes cwd (tu_input block) fs = Inr out"
    using that
    by (simp add: run_tool_def agent_run_tool_def sample_registry list_files_tool_def)
  have reg: "TOOL_MAP from_lines excludes cwd (tu_name block) =
          agent_TOOL_MAP from_lines excludes cwd (tu_name block)"
    if "tu_name block = ''list_files''"
    using that by (simp add: sample_registry)
  from ids [of "TOOL_MAP from_lines excludes cwd" "agent_TOOL_MAP from_lines excludes cwd"]
  have "fst (run_tool (TOOL_MAP from_lines excludes cwd) block fs) ''type'' =
     fst (agent_run_tool (agent_TOOL_MAP from_lines excludes cwd) block fs) ''type''"
    "fst (run_tool (TOOL_MAP from_lines excludes cwd) block fs) ''tool_use_id'' =
     fst (agent_run_tool (agent_TOOL_MAP from_lines excludes cwd) block fs) ''tool_use_id''"
    by simp_all
  with reg same show ?thesis by blast
qed

lemma sample_listing:
  "list_files prefix_compiler None sample_cwd Map.empty sample_fs =
     Inr (json_dumps [''a.txt'', ''d/''])"
  by code_simp

theorem run_tool_versions_agree_witness:
  "run_tool (TOOL_MAP prefix_compiler None sample_cwd) (sample_block ''list_files'' Map.empty)
       sample_fs =
     agent_run_tool (agent_TOOL_MAP prefix_compiler None sample_cwd)
       (sample_block ''list_files'' Map.empty) sample_fs
   \<and> fst (run_tool (TOOL_MAP prefix_compiler None sample_cwd)
       (sample_block ''list_files'' Map.empty) sample_fs) ''content'' =
       Some (JStr (json_dumps [''a.txt'', ''d/'']))"
proof -
  note A = run_tool_versions_agree [where block = "sample_block ''list_files'' Map.empty"
      and from_lines = prefix_compiler and excludes = None and cwd = sample_cwd
      and fs = sample_fs and out = "json_dumps [''a.txt'', ''d/'']"]
  have h: "tu_name (sample_block ''list_files'' Map.empty) = ''list_files''
     \<and> list_files prefix_compiler None sample_cwd (tu_input (sample_block ''list_files'' Map.empty))
         sample_fs = Inr (json_dumps [''a.txt'', ''d/''])"
    by (simp add: sample_block_def sample_listing)
  from A [THEN conjunct2, THEN conjunct2, THEN conjunct2, rule_format, OF h]
  show ?thesis .
qed

section \<open>Properties of the orchestrator loop\<close>

lemma process_blocks_exists:
  "length (block_tool_uses bs) \<le> length (st_responses st) \<Longrightarrow>
     \<exists>pending' st'. process_blocks tool_map bs pending st = Some (pending', st')"
proof (induction tool_map bs pending st rule: process_blocks.induct)
  case (1 tool_map pending st)
  then show ?case by simp
next
  case (2 tool_map t bs pending st)
  then show ?case by simp
next
  case (3 tool_map b bs pending st)
  obtain result_block fs' out where run: "run_tool tool_map b (st_files st) = (result_block, fs', out)"
    by (cases "run_tool tool_map b (st_files st)") auto
  let ?st1 = "st\<lparr>st_files := fs', st_printed := st_printed st @ out,
      st_dispatched := st_dispatched st @ [b],
      st_conv := st_conv st @ [(''user'', ToolResults [result_block])]\<rparr>"
  from "3.prems" obtain m rs where rs: "st_responses st = m # rs"
    by (cases "st_responses st") auto
  let ?st2 = "?st1\<lparr>st_responses := rs, st_requests := st_requests ?st1 @ [st_conv ?st1]\<rparr>"
  have cr: "create ?st1 = Some (m, ?st2)"
    using rs by (simp add: create_def)
  have "length (block_tool_uses bs) \<le> length (st_responses ?st2)"
    using "3.prems" rs by simp
  from "3.IH" [OF run [symmetric] refl cr refl this]
  show ?case using run cr by simp
next
  case (4 tool_map k bs pending st)
  then show ?case by simp
qed

lemma tool_uses_simps [simp]:
  "tool_uses [] = []"
  "tool_uses (m # ms) = block_tool_uses (msg_content m) @ tool_uses ms"
  "tool_uses (ms @ ms') = tool_uses ms @ tool_uses ms'"
  by (simp_all add: tool_uses_def)

lemma handle_loop_effect:
  "handle_loop tool_map debug message pending st = Some st' \<Longrightarrow>
     \<exists>k new. k \<le> length (st_responses st)
       \<and> st_responses st' = drop k (st_responses st)
       \<and> st_handled st' = st_handled st @ pending @ take k (st_responses st)
       \<and> st_dispatched st' = st_dispatched st @ tool_uses (pending @ take k (st_responses st))
       \<and> k = length (tool_uses (pending @ take k (st_responses st)))
       \<and> st_requests st' = st_requests st @ new
       \<and> list_all2 answers_tool_use new (tool_uses (pending @ take k (st_responses st)))
       \<and> (pending \<noteq> [] \<longrightarrow>
            block_tool_uses (msg_content (last (pending @ take k (st_responses st)))) = [])"
proof (induction tool_map debug message pending st arbitrary: st' rule: handle_loop.induct)
  case (1 tool_map debug message pending st)
  show ?case
  proof (cases pending)
    case Nil
    with "1.prems" have "st' = st"
      by (simp add: handle_loop.simps)
    with Nil show ?thesis
      by (intro exI [of _ 0] exI [of _ "[]"]) simp
  next
    case (Cons current rest)
    let ?st1 = "st\<lparr>st_conv := st_conv st @ [(msg_role message, ModelBlocks (msg_content current))],
        st_handled := st_handled st @ [current],
        st_printed := st_printed st @ (if debug then [PrintDebug] else [])\<rparr>"
    let ?R = "st_responses st"
    let ?n = "length (block_tool_uses (msg_content current))"
    from "1.prems" Cons obtain pending' st2 where
      pb: "process_blocks tool_map (msg_content current) rest ?st1 = Some (pending', st2)"
      and hl: "handle_loop tool_map debug message pending' st2 = Some st'"
      by (subst (asm) handle_loop.simps) (auto split: option.splits)
    from process_blocks_effect [OF pb]
    obtain new1 where e1: "?n \<le> length ?R" "pending' = rest @ take ?n ?R"
      "st_responses st2 = drop ?n ?R"
      "st_dispatched st2 = st_dispatched st @ block_tool_uses (msg_content current)"
      "st_handled st2 = st_handled st @ [current]"
      "st_requests st2 = st_requests st @ new1"
      "list_all2 answers_tool_use new1 (block_tool_uses (msg_content current))"
      by auto
    from "1.IH" [OF Cons pb refl hl]
    obtain k new2 where e2: "k \<le> length (st_responses st2)"
      "st_responses st' = drop k (st_responses st2)"
      "st_handled st' = st_handled st2 @ pending' @ take k (st_responses st2)"
      "st_dispatched st' = st_dispatched st2 @ tool_uses (pending' @ take k (st_responses st2))"
      "k = length (tool_uses (pending' @ take k (st_responses st2)))"
      "st_requests st' = st_requests st2 @ new2"
      "list_all2 answers_tool_use new2 (tool_uses (pending' @ take k (st_responses st2)))"
      "pending' \<noteq> [] \<longrightarrow>
         block_tool_uses (msg_content (last (pending' @ take k (st_responses st2)))) = []"
      by blast
    let ?k = "?n + k"
    have tk: "take ?n ?R @ take k (drop ?n ?R) = take ?k ?R"
      by (simp add: take_add)
    then have all: "pending' @ take k (st_responses st2) = rest @ take ?k ?R"
      using e1(2,3) by simp
    have a: "?k \<le> length ?R"
      using e1(1,3) e2(1) by simp
    have b: "st_responses st' = drop ?k ?R"
      using e1(3) e2(2) by (simp add: add.commute)
    have c: "st_handled st' = st_handled st @ pending @ take ?k ?R"
      using e1(5) e2(3) all Cons by simp
    have d: "st_dispatched st' = st_dispatched st @ tool_uses (pending @ take ?k ?R)"
      using e1(4) e2(4) all Cons by simp
    have e: "?k = length (tool_uses (pending @ take ?k ?R))"
      using e2(5) all Cons by simp
    have f: "st_requests st' = st_requests st @ (new1 @ new2)"
      using e1(6) e2(6) by simp
    have g: "list_all2 answers_tool_use (new1 @ new2) (tool_uses (pending @ take ?k ?R))"
      using e1(7) e2(7) all Cons by (simp add: list_all2_appendI)
    have h: "block_tool_uses (msg_content (last (pending @ take ?k ?R))) = []"
    proof (cases "pending' = []")
      case True
      with e1(1,2) have r: "rest = []" and n: "?n = 0"
        by auto
      from True hl have "st' = st2"
        by (simp add: handle_loop.simps)
      with e2(2) e2(1) have "drop k (st_responses st2) = st_responses st2"
        by simp
      then have "length (drop k (st_responses st2)) = length (st_responses st2)"
        by simp
      with e2(1) have "k = 0" by simp
      then have "take k (st_responses st2) = []" by simp
      with all True have "rest @ take ?k ?R = []" by simp
      then show ?thesis using Cons n by simp
    next
      case False
      then have "pending' @ take k (st_responses st2) \<noteq> []" by simp
      then have ne: "rest @ take ?k ?R \<noteq> []" using all by simp
      have "last (pending @ take ?k ?R) = last (rest @ take ?k ?R)"
        unfolding Cons using ne by (simp del: append_is_Nil_conv)
      also have "\<dots> = last (pending' @ take k (st_responses st2))"
        using all by simp
      finally show ?thesis using e2(8) False by simp
    qed
    from a b c d e f g h show ?thesis by blast
  qed
qed

lemma handle_loop_exists:
  "length (tool_uses (pending @ st_responses st)) \<le> length (st_responses st) \<Longrightarrow>
     \<exists>st'. handle_loop tool_map debug message pending st = Some st'"
proof (induction tool_map debug message pending st rule: handle_loop.induct)
  case (1 tool_map debug message pending st)
  show ?case
  proof (cases pending)
    case Nil
    then show ?thesis by (simp add: handle_loop.simps)
  next
    case (Cons current rest)
    let ?st1 = "st\<lparr>st_conv := st_conv st @ [(msg_role message, ModelBlocks (msg_content current))],
        st_handled := st_handled st @ [current],
        st_printed := st_printed st @ (if debug then [PrintDebug] else [])\<rparr>"
    let ?R = "st_responses st"
    let ?n = "length (block_tool_uses (msg_content current))"
    have n: "?n \<le> length (st_responses ?st1)"
      using "1.prems" Cons by simp
    from process_blocks_exists [OF n, of tool_map rest]
    obtain pending' st2 where
      pb: "process_blocks tool_map (msg_content current) rest ?st1 = Some (pending', st2)"
      by blast
    from process_blocks_effect [OF pb]
    have e1: "pending' = rest @ take ?n ?R" "st_responses st2 = drop ?n ?R"
      by auto
    have "tool_uses (pending' @ st_responses st2) = tool_uses (rest @ ?R)"
      using e1 by simp
    then have "length (tool_uses (pending' @ st_responses st2)) \<le> length (st_responses st2)"
      using "1.prems" Cons e1(2) by simp
    from "1.IH" [OF Cons pb refl this]
    obtain st' where "handle_loop tool_map debug message pending' st2 = Some st'"
      by blast
    then show ?thesis
      using Cons pb by (subst handle_loop.simps) simp
  qed
qed

section \<open>Termination and effect of handle\<close>

lemma handle_effect:
  assumes "handle tool_map debug message st = Some st'"
  shows "\<exists>k new. k \<le> length (st_responses st)
       \<and> st_responses st' = drop k (st_responses st)
       \<and> st_handled st' = st_handled st @ message # take k (st_responses st)
       \<and> st_dispatched st' = st_dispatched st @ tool_uses (message # take k (st_responses st))
       \<and> k = length (tool_uses (message # take k (st_responses st)))
       \<and> st_requests st' = st_requests st @ new
       \<and> length new = k
       \<and> list_all2 answers_tool_use new (tool_uses (message # take k (st_responses st)))
       \<and> block_tool_uses (msg_content (last (st_handled st'))) = []"
proof -
  from handle_loop_effect [OF assms [unfolded handle_def]]
  obtain k new where e: "k \<le> length (st_responses st)"
    "st_responses st' = drop k (st_responses st)"
    "st_handled st' = st_handled st @ [message] @ take k (st_responses st)"
    "st_dispatched st' = st_dispatched st @ tool_uses ([message] @ take k (st_responses st))"
    "k = length (tool_uses ([message] @ take k (st_responses st)))"
    "st_requests st' = st_requests st @ new"
    "list_all2 answers_tool_use new (tool_uses ([message] @ take k (st_responses st)))"
    "block_tool_uses (msg_content (last ([message] @ take k (st_responses st)))) = []"
    by blast
  from e(5,7) have len: "length new = k"
    by (simp add: list_all2_lengthD)
  have "last (st_handled st') = last ([message] @ take k (st_responses st))"
    unfolding e(3) by simp
  with e(8) have "block_tool_uses (msg_content (last (st_handled st'))) = []"
    by simp
  with e(1-7) len show ?thesis
    by (intro exI [of _ k] exI [of _ new]) simp
qed

text \<open>
  Claim C7, amended. The loop of \<^verbatim>\<open>handle\<close> ends exactly when the queue is empty. It
  does end when the responses of the service hold no more \<^verbatim>\<open>tool_use\<close> blocks than
  there are responses. When it ends it has taken \<open>k\<close> responses from the service, has
  handled the first message and these \<open>k\<close> responses in order, and the last message it
  handled holds no \<^verbatim>\<open>tool_use\<close> block; every \<^verbatim>\<open>tool_use\<close> block of the handled messages
  was dispatched once, in order, and was followed by one call to the service whose
  \<^verbatim>\<open>messages\<close> end with the tool result of that block, so \<open>k\<close> is the number of dispatches
  and of follow-up calls. A round of \<^verbatim>\<open>loop\<close> makes one call more than it dispatches
  tools.
\<close>

theorem handle_outcomes:
  "handle_loop tool_map debug message [] st = Some st
   \<and> (length (tool_uses (message # st_responses st)) \<le> length (st_responses st) \<longrightarrow>
        (\<exists>st'. handle tool_map debug message st = Some st'))
   \<and> (\<forall>st'. handle tool_map debug message st = Some st' \<longrightarrow>
        (\<exists>k new. k \<le> length (st_responses st)
           \<and> st_responses st' = drop k (st_responses st)
           \<and> st_handled st' = st_handled st @ message # take k (st_responses st)
           \<and> st_dispatched st' = st_dispatched st @ tool_uses (message # take k (st_responses st))
           \<and> k = length (tool_uses (message # take k (st_responses st)))
           \<and> st_requests st' = st_requests st @ new
           \<and> length new = k
           \<and> list_all2 answers_tool_use new (tool_uses (message # take k (st_responses st)))
           \<and> block_tool_uses (msg_content (last (st_handled st'))) = []))
   \<and> (\<forall>st'. user_input \<noteq> [] \<and> turn tool_map debug user_input st = Some st' \<longrightarrow>
        (\<exists>k. length (st_dispatched st') = length (st_dispatched st) + k
           \<and> length (st_requests st') = length (st_requests st) + k + 1))"
proof -
  have a: "handle_loop tool_map debug message [] st = Some st"
    by (simp add: handle_loop.simps)
  have b: "\<exists>st'. handle tool_map debug message st = Some st'"
    if "length (tool_uses (message # st_responses st)) \<le> length (st_responses st)"
    unfolding handle_def using that
    by (intro handle_loop_exists) simp
  have c: "\<exists>k. length (st_dispatched st') = length (st_dispatched st) + k
           \<and> length (st_requests st') = length (st_requests st) + k + 1"
    if "user_input \<noteq> []" "turn tool_map debug user_input st = Some st'" for st'
  proof -
    let ?st1 = "st\<lparr>st_conv := st_conv st @ [(''user'', UserText user_input)]\<rparr>"
    from that obtain m st2 where cr: "create ?st1 = Some (m, st2)"
      and h: "handle tool_map debug m st2 = Some st'"
      by (auto simp: turn_def split: option.splits)
    from cr have st2: "st_dispatched st2 = st_dispatched st"
      "length (st_requests st2) = length (st_requests st) + 1"
      by (auto simp: create_def split: list.splits)
    from handle_effect [OF h] obtain k new where
      "st_dispatched st' = st_dispatched st2 @ tool_uses (m # take k (st_responses st2))"
      "k = length (tool_uses (m # take k (st_responses st2)))"
      "st_requests st' = st_requests st2 @ new" "length new = k"
      by blast
    with st2 have "length (st_dispatched st') = length (st_dispatched st) + k
           \<and> length (st_requests st') = length (st_requests st) + k + 1"
      by simp
    then show ?thesis by blast
  qed
  from a b c handle_effect [of tool_map debug message st] show ?thesis by blast
qed

text \<open>
  Claim C7, as stated, fails: when a message holds two \<^verbatim>\<open>tool_use\<close> blocks, two
  responses are queued; the loop handles the first of them, which holds no \<^verbatim>\<open>tool_use\<close>
  block, and goes on to the second. The handled messages hold 2, 0 and 0
  \<^verbatim>\<open>tool_use\<close> blocks.
\<close>

theorem handle_queue_counterexample:
  "map_option (\<lambda>s. map (\<lambda>m. length (block_tool_uses (msg_content m))) (st_handled s))
     (handle sample_tools False (assistant [sample_read ''a'', sample_read ''b''])
        (sample_state [assistant [TextBlock ''x''], assistant [TextBlock ''y'']])) =
   Some [2, 0, 0]"
  by code_simp

theorem handle_outcomes_witness:
  "\<exists>st'. turn sample_tools False ''hi''
       (sample_state [assistant [sample_read ''a''],
                      assistant [TextBlock ''t'', sample_read ''b''],
                      assistant [TextBlock ''done'']]) = Some st'
     \<and> length (st_dispatched st') = 2 \<and> length (st_requests st') = 3
     \<and> st_responses st' = []"
proof -
  let ?m0 = "assistant [sample_read ''a'']"
  let ?m1 = "assistant [TextBlock ''t'', sample_read ''b'']"
  let ?m2 = "assistant [TextBlock ''done'']"
  let ?st = "sample_state [?m0, ?m1, ?m2]"
  let ?st2 = "?st\<lparr>st_conv := st_conv ?st @ [(''user'', UserText ''hi'')],
      st_responses := [?m1, ?m2],
      st_requests := st_requests ?st @ [st_conv ?st @ [(''user'', UserText ''hi'')]]\<rparr>"
  have t: "turn sample_tools False ''hi'' ?st = handle sample_tools False ?m0 ?st2"
    by (simp add: turn_def create_def sample_state_def)
  have r: "st_responses ?st2 = [?m1, ?m2]" "st_dispatched ?st2 = []" "st_requests ?st = []"
    by (simp_all add: sample_state_def)
  have tu: "length (tool_uses [?m0]) = 1" "length (tool_uses [?m0, ?m1]) = 2"
    "length (tool_uses [?m0, ?m1, ?m2]) = 2"
    by (simp_all add: assistant_def sample_read_def)
  note T = handle_outcomes [where tool_map = sample_tools and debug = False and message = ?m0
      and st = ?st2]
  have "length (tool_uses (?m0 # st_responses ?st2)) \<le> length (st_responses ?st2)"
    unfolding r using tu(3) by simp
  with T [THEN conjunct2, THEN conjunct1]
  obtain st' where h: "handle sample_tools False ?m0 ?st2 = Some st'"
    by blast
  from T [THEN conjunct2, THEN conjunct2, THEN conjunct1, rule_format, OF h]
  obtain k new where e: "k \<le> length (st_responses ?st2)"
    "st_responses st' = drop k (st_responses ?st2)"
    "k = length (tool_uses (?m0 # take k (st_responses ?st2)))"
    by blast
  from e(1) r(1) have "k = 0 \<or> k = 1 \<or> k = 2"
    by (simp add: le_Suc_eq numeral_2_eq_2)
  with e(3) tu have k: "k = 2"
    unfolding r(1) by auto
  have ne: "''hi'' \<noteq> []" by simp
  from handle_outcomes [where tool_map = sample_tools and debug = False and user_input = "''hi''"
      and st = ?st, THEN conjunct2, THEN conjunct2, THEN conjunct2, rule_format, of st']
    t h ne
  obtain j where j: "length (st_dispatched st') = length (st_dispatched ?st) + j"
    "length (st_requests st') = length (st_requests ?st) + j + 1"
    by auto
  note U = handle_outcomes [where tool_map = sample_tools and debug = False and message = ?m0
      and st = ?st2, THEN conjunct2, THEN conjunct2, THEN conjunct1, rule_format, OF h]
  from U obtain k' where k': "st_dispatched st' = st_dispatched ?st2 @ tool_uses (?m0 # take k' (st_responses ?st2))"
    "k' = length (tool_uses (?m0 # take k' (st_responses ?st2)))"
    "k' \<le> length (st_responses ?st2)" "st_responses st' = drop k' (st_responses ?st2)"
    by blast
  from k'(3) r(1) have "k' = 0 \<or> k' = 1 \<or> k' = 2"
    by (simp add: le_Suc_eq numeral_2_eq_2)
  with k'(2) tu have k2: "k' = 2"
    unfolding r(1) by auto
  from k'(1) k2 r tu have d: "length (st_dispatched st') = 2"
    by simp
  from d j have "j = 2" by (simp add: sample_state_def)
  with j(2) have q: "length (st_requests st') = 3"
    by (simp add: sample_state_def)
  from k'(4) k2 r have "st_responses st' = []" by simp
  with t h d q show ?thesis by simp
qed

end
